theory Spec2Isabelle
  imports Complex_Main "HOL-Library.AList" "HOL-Library.Multiset"
begin

section \<open>Token matching accuracy and query hardness: the model\<close>

text \<open>
  The program is \<^verbatim>\<open>Evaluation/evaluation_category_matching_accuracy.py\<close>.
  Python strings are modelled as lists of \<^typ>\<open>char\<close>, a character standing for the code
  point of the same number (0 to 255, the Latin-1 range). Within that range the classes
  \<^verbatim>\<open>\w\<close> and \<^verbatim>\<open>\s\<close> of the \<^verbatim>\<open>re\<close> module and \<^verbatim>\<open>str.lower\<close> are as tabulated below, and
  \<^verbatim>\<open>str.lower\<close> works character by character.
\<close>

subsection \<open>Characters\<close>

definition is_word :: "char \<Rightarrow> bool" where
  \<comment> \<open>\<^verbatim>\<open>\w\<close> on a str pattern: alphanumeric code points and the underscore.\<close>
  "is_word c =
     (let n = (of_char c :: nat) in
        (48 \<le> n \<and> n \<le> 57) \<or> (65 \<le> n \<and> n \<le> 90) \<or> n = 95 \<or> (97 \<le> n \<and> n \<le> 122)
        \<or> n = 170 \<or> n = 178 \<or> n = 179 \<or> n = 181 \<or> n = 185 \<or> n = 186
        \<or> (188 \<le> n \<and> n \<le> 190) \<or> (192 \<le> n \<and> n \<le> 214)
        \<or> (216 \<le> n \<and> n \<le> 246) \<or> (248 \<le> n \<and> n \<le> 255))"

definition is_space :: "char \<Rightarrow> bool" where
  \<comment> \<open>\<^verbatim>\<open>\s\<close> on a str pattern, and the separators of \<^verbatim>\<open>str.split()\<close>.\<close>
  "is_space c =
     (let n = (of_char c :: nat) in
        (9 \<le> n \<and> n \<le> 13) \<or> (28 \<le> n \<and> n \<le> 32) \<or> n = 133 \<or> n = 160)"

definition lower_char :: "char \<Rightarrow> char" where
  "lower_char c =
     (let n = (of_char c :: nat) in
        if (65 \<le> n \<and> n \<le> 90) \<or> (192 \<le> n \<and> n \<le> 214) \<or> (216 \<le> n \<and> n \<le> 222)
        then char_of (n + 32) else c)"

definition lower :: "string \<Rightarrow> string" where
  \<comment> \<open>\<^verbatim>\<open>str.lower()\<close>\<close>
  "lower s = map lower_char s"

definition newline :: char where
  "newline = CHR 0x0A"

subsection \<open>The regular expressions of the program\<close>

text \<open>
  The patterns the program hands to \<^verbatim>\<open>re.findall\<close> are sequences of the atoms below,
  joined at top level by \<^verbatim>\<open>|\<close>. The matcher is the backtracking one of \<^verbatim>\<open>re\<close>: it
  works on positions of the subject string and returns the end of the first match in
  priority order (greedy repetitions try the longest extent first, alternatives are
  tried from left to right).
\<close>

datatype atom =
    Lit string          \<comment> \<open>literal text\<close>
  | Bnd                 \<comment> \<open>\<^verbatim>\<open>\b\<close>\<close>
  | DotStar             \<comment> \<open>\<^verbatim>\<open>.*\<close>, where \<^verbatim>\<open>.\<close> is any character but a newline\<close>
  | WordPlus            \<comment> \<open>\<^verbatim>\<open>\w+\<close>\<close>
  | Sym                 \<comment> \<open>\<^verbatim>\<open>[^\w\s]\<close>\<close>
  | Alt "string list"   \<comment> \<open>a group of literal alternatives \<^verbatim>\<open>(a|b|c)\<close>\<close>

type_synonym regex = "atom list list"

definition at_boundary :: "string \<Rightarrow> nat \<Rightarrow> bool" where
  \<comment> \<open>\<^verbatim>\<open>\b\<close> holds between a word character and a non-word character or an end of the string.\<close>
  "at_boundary s i =
     ((0 < i \<and> i \<le> length s \<and> is_word (s ! (i - 1))) \<noteq> (i < length s \<and> is_word (s ! i)))"

definition lit_at :: "string \<Rightarrow> string \<Rightarrow> nat \<Rightarrow> bool" where
  "lit_at w s i = (take (length w) (drop i s) = w)"

definition dot_run :: "string \<Rightarrow> nat \<Rightarrow> nat" where
  "dot_run s i = length (takeWhile (\<lambda>c. c \<noteq> newline) (drop i s))"

definition word_run :: "string \<Rightarrow> nat \<Rightarrow> nat" where
  "word_run s i = length (takeWhile is_word (drop i s))"

fun first_some :: "('a \<Rightarrow> 'b option) \<Rightarrow> 'a list \<Rightarrow> 'b option" where
  "first_some f [] = None"
| "first_some f (x # xs) = (case f x of Some y \<Rightarrow> Some y | None \<Rightarrow> first_some f xs)"

fun rmatch :: "atom list \<Rightarrow> string \<Rightarrow> nat \<Rightarrow> nat option" where
  "rmatch [] s i = Some i"
| "rmatch (Lit w # p) s i = (if lit_at w s i then rmatch p s (i + length w) else None)"
| "rmatch (Bnd # p) s i = (if at_boundary s i then rmatch p s i else None)"
| "rmatch (DotStar # p) s i =
     first_some (\<lambda>k. rmatch p s k) (rev [i ..< Suc (i + dot_run s i)])"
| "rmatch (WordPlus # p) s i =
     first_some (\<lambda>k. rmatch p s k) (rev [Suc i ..< Suc (i + word_run s i)])"
| "rmatch (Sym # p) s i =
     (if i < length s \<and> \<not> is_word (s ! i) \<and> \<not> is_space (s ! i)
      then rmatch p s (Suc i) else None)"
| "rmatch (Alt ws # p) s i =
     first_some (\<lambda>w. if lit_at w s i then rmatch p s (i + length w) else None) ws"

definition rmatch_alts :: "regex \<Rightarrow> string \<Rightarrow> nat \<Rightarrow> nat option" where
  "rmatch_alts re s i = first_some (\<lambda>p. rmatch p s i) re"

definition substr :: "string \<Rightarrow> nat \<Rightarrow> nat \<Rightarrow> string" where
  \<comment> \<open>\<^verbatim>\<open>s[i:e]\<close>\<close>
  "substr s i e = take (e - i) (drop i s)"

text \<open>
  \<^verbatim>\<open>re.findall\<close>: the matches from left to right, the search resuming where the last
  match ended. The result lists the matched texts; the program uses them as tokens or
  only counts them. No pattern of the program matches the empty string (lemma
  \<open>program_patterns_advance\<close> below), so the retry that \<^verbatim>\<open>re\<close> makes at the same position
  after an empty match never arises; for that case the model lists the empty match and
  moves one position on.
\<close>

function findall_from :: "regex \<Rightarrow> string \<Rightarrow> nat \<Rightarrow> string list" where
  "findall_from re s i =
     (if length s < i then []
      else case rmatch_alts re s i of
             None \<Rightarrow> findall_from re s (Suc i)
           | Some e \<Rightarrow>
               if i < e then substr s i e # findall_from re s e
               else [] # findall_from re s (Suc i))"
  by pat_completeness auto
termination
  by (relation "measure (\<lambda>(re, s, i). Suc (length s) - i)") auto

declare findall_from.simps [simp del]

definition findall :: "regex \<Rightarrow> string \<Rightarrow> string list" where
  "findall re s = findall_from re s 0"

subsection \<open>tokenize_sql\<close>

definition rx_token :: regex where
  \<comment> \<open>\<^verbatim>\<open>r'\w+|[^\w\s]'\<close>\<close>
  "rx_token = [[WordPlus], [Sym]]"

definition tokenize_sql :: "string option \<Rightarrow> string list" where
  \<comment> \<open>\<^const>\<open>None\<close> is a missing value, for which \<^verbatim>\<open>pd.isna\<close> holds.\<close>
  "tokenize_sql sql =
     (case sql of
        None \<Rightarrow> []
      | Some text \<Rightarrow> (let tokens = findall rx_token text in map lower tokens))"

subsection \<open>compare_components\<close>

text \<open>
  The dictionary \<^verbatim>\<open>results\<close> is an association list in insertion order; assigning to a
  key that is present keeps its place, as \<^const>\<open>AList.update\<close> does. The percentage is a
  Python float, modelled by the exact quotient; dividing by zero raises.
\<close>

datatype py_error = SyntaxError | ValueError | TypeError | AttributeError | ZeroDivisionError

definition py_truediv :: "nat \<Rightarrow> nat \<Rightarrow> py_error + rat" where
  \<comment> \<open>\<^verbatim>\<open>a / b\<close> on two counts\<close>
  "py_truediv a b = (if b = 0 then Inl ZeroDivisionError else Inr (of_nat a / of_nat b))"

fun compare_loop ::
  "'a set \<Rightarrow> 'a list \<Rightarrow> ('a \<times> bool) list \<times> nat \<Rightarrow> ('a \<times> bool) list \<times> nat" where
  "compare_loop gen_token_set [] st = st"
| "compare_loop gen_token_set (token # ref_tokens) (results, matched_tokens) =
     (let presence = (token \<in> gen_token_set)
      in compare_loop gen_token_set ref_tokens
           (AList.update token presence results,
            if presence then matched_tokens + 1 else matched_tokens))"

definition compare_components ::
  "'a list \<Rightarrow> 'a list \<Rightarrow> py_error + rat \<times> ('a \<times> bool) list" where
  "compare_components ref_tokens gen_tokens =
     (let gen_token_set = set gen_tokens;
          (results, matched_tokens) = compare_loop gen_token_set ref_tokens ([], 0);
          total_ref_tokens = length ref_tokens
      in case (if total_ref_tokens > 0
               then (case py_truediv matched_tokens total_ref_tokens of
                       Inl e \<Rightarrow> Inl e
                     | Inr q \<Rightarrow> Inr (q * 100))
               else Inr 0) of
           Inl e \<Rightarrow> Inl e
         | Inr match_percentage \<Rightarrow> Inr (match_percentage, results))"

subsection \<open>evaluate_sql\<close>

text \<open>
  A cell of the column \<^verbatim>\<open>query_toks\<close> holds any Python value: a string when the table was
  read from a file, a list when it was built in memory. The values are those that
  \<^verbatim>\<open>ast.literal_eval\<close> can return; a set or a dictionary lists its members in iteration
  order.
\<close>

datatype pyval =
    PStr string
  | PBytes string
  | PInt int
  | PBool bool
  | PNone
  | POther                            \<comment> \<open>a float, a complex number or \<^verbatim>\<open>Ellipsis\<close>\<close>
  | PList "pyval list"
  | PTuple "pyval list"
  | PSet "pyval list"
  | PDict "(pyval \<times> pyval) list"

fun py_iter :: "pyval \<Rightarrow> py_error + pyval list" where
  \<comment> \<open>what \<^verbatim>\<open>for token in v\<close> runs through\<close>
  "py_iter (PStr s) = Inr (map (\<lambda>c. PStr [c]) s)"
| "py_iter (PBytes b) = Inr (map (\<lambda>c. PInt (of_char c)) b)"
| "py_iter (PList xs) = Inr xs"
| "py_iter (PTuple xs) = Inr xs"
| "py_iter (PSet xs) = Inr xs"
| "py_iter (PDict kvs) = Inr (map fst kvs)"
| "py_iter v = Inl TypeError"

definition lower_ascii :: "char \<Rightarrow> char" where
  "lower_ascii c =
     (let n = (of_char c :: nat) in if 65 \<le> n \<and> n \<le> 90 then char_of (n + 32) else c)"

fun py_lower :: "pyval \<Rightarrow> py_error + pyval" where
  \<comment> \<open>\<^verbatim>\<open>token.lower()\<close>: str and bytes have the method, the other values do not\<close>
  "py_lower (PStr s) = Inr (PStr (lower s))"
| "py_lower (PBytes b) = Inr (PBytes (map lower_ascii b))"
| "py_lower v = Inl AttributeError"

fun lower_all :: "pyval list \<Rightarrow> py_error + pyval list" where
  "lower_all [] = Inr []"
| "lower_all (token # rest) =
     (case py_lower token of
        Inl e \<Rightarrow> Inl e
      | Inr t \<Rightarrow> (case lower_all rest of Inl e \<Rightarrow> Inl e | Inr ts \<Rightarrow> Inr (t # ts)))"

definition reference_tokens :: "(string \<Rightarrow> py_error + pyval) \<Rightarrow> pyval \<Rightarrow> py_error + pyval list" where
  \<comment> \<open>The lambda of line 31; \<open>literal_eval\<close> stands for \<^verbatim>\<open>ast.literal_eval\<close>, which either
      raises or returns the value the text denotes.\<close>
  "reference_tokens literal_eval x =
     (case (case x of PStr text \<Rightarrow> literal_eval text | _ \<Rightarrow> Inr x) of
        Inl e \<Rightarrow> Inl e
      | Inr v \<Rightarrow> (case py_iter v of Inl e \<Rightarrow> Inl e | Inr tokens \<Rightarrow> lower_all tokens))"

record row =
  generated_query :: "string option"
  query_toks :: pyval

fun apply_reference_tokens ::
  "(string \<Rightarrow> py_error + pyval) \<Rightarrow> row list \<Rightarrow> py_error + pyval list list" where
  \<comment> \<open>\<^verbatim>\<open>data['query_toks'].apply(...)\<close>: every row in turn, the first exception ends it\<close>
  "apply_reference_tokens literal_eval [] = Inr []"
| "apply_reference_tokens literal_eval (r # rows) =
     (case reference_tokens literal_eval (query_toks r) of
        Inl e \<Rightarrow> Inl e
      | Inr ts \<Rightarrow>
          (case apply_reference_tokens literal_eval rows of
             Inl e \<Rightarrow> Inl e
           | Inr tss \<Rightarrow> Inr (ts # tss)))"

definition evaluate_row ::
  "string option \<Rightarrow> 'a list \<Rightarrow> 'a list \<Rightarrow> py_error + rat \<times> ('a \<times> bool) list \<times> nat" where
  \<comment> \<open>the body of the loop over the rows, lines 37 to 46\<close>
  "evaluate_row generated ref_tokens gen_tokens =
     (case generated of
        None \<Rightarrow> Inr (0, [], 0)
      | Some text \<Rightarrow>
          (case compare_components ref_tokens gen_tokens of
             Inl e \<Rightarrow> Inl e
           | Inr (percentage, details) \<Rightarrow>
               Inr (percentage, details, if list_all id (map snd details) then 1 else 0)))"

fun evaluate_rows ::
  "(row \<times> pyval list \<times> pyval list) list
     \<Rightarrow> py_error + (rat \<times> (pyval \<times> bool) list \<times> nat) list" where
  \<comment> \<open>the loop of lines 36 to 46: row after row, an exception ends it\<close>
  "evaluate_rows [] = Inr []"
| "evaluate_rows ((r, ref_tokens, gen_tokens) # rest) =
     (case evaluate_row (generated_query r) ref_tokens gen_tokens of
        Inl e \<Rightarrow> Inl e
      | Inr result \<Rightarrow>
          (case evaluate_rows rest of
             Inl e \<Rightarrow> Inl e
           | Inr results \<Rightarrow> Inr (result # results)))"

definition evaluate_sql ::
  "(string \<Rightarrow> py_error + pyval) \<Rightarrow> row list
     \<Rightarrow> py_error + (rat list \<times> (pyval \<times> bool) list list \<times> nat list)" where
  "evaluate_sql literal_eval data =
     (let generated_tokens = map (\<lambda>r. map PStr (tokenize_sql (generated_query r))) data
      in case apply_reference_tokens literal_eval data of
           Inl e \<Rightarrow> Inl e
         | Inr reference \<Rightarrow>
             (case evaluate_rows (zip data (zip reference generated_tokens)) of
                Inl e \<Rightarrow> Inl e
              | Inr results \<Rightarrow>
                  Inr (map fst results, map (fst \<circ> snd) results, map (snd \<circ> snd) results)))"

subsection \<open>categorize_query\<close>

function split_ws :: "string \<Rightarrow> string list" where
  \<comment> \<open>\<^verbatim>\<open>str.split()\<close>: the maximal runs of characters that are not whitespace\<close>
  "split_ws s =
     (let r = dropWhile is_space s
      in if r = [] then []
         else takeWhile (\<lambda>c. \<not> is_space c) r # split_ws (dropWhile (\<lambda>c. \<not> is_space c) r))"
  by pat_completeness auto
termination
proof (relation "measure length")
  fix s r :: string
  assume r: "r = dropWhile is_space s" and ne: "r \<noteq> []"
  have "length (dropWhile (\<lambda>c. \<not> is_space c) r) < length r"
  proof (cases r)
    case Nil
    with ne show ?thesis by simp
  next
    case (Cons c cs)
    have "\<not> is_space c"
      using r Cons hd_dropWhile [of is_space s] by (metis list.sel(1) ne)
    then show ?thesis
      using Cons length_dropWhile_le [of "\<lambda>c. \<not> is_space c" cs] by simp
  qed
  also have "length r \<le> length s"
    using r by (simp add: length_dropWhile_le)
  finally show "(dropWhile (\<lambda>c. \<not> is_space c) r, s) \<in> measure length"
    by simp
qed simp

declare split_ws.simps [simp del]

definition rx_join :: regex where "rx_join = [[Bnd, Lit ''join'', Bnd]]"
definition rx_where :: regex where "rx_where = [[Bnd, Lit ''where'', Bnd]]"
definition rx_group_by :: regex where "rx_group_by = [[Bnd, Lit ''group by'', Bnd]]"
definition rx_order_by :: regex where "rx_order_by = [[Bnd, Lit ''order by'', Bnd]]"
definition rx_having :: regex where "rx_having = [[Bnd, Lit ''having'', Bnd]]"
definition rx_union :: regex where "rx_union = [[Bnd, Lit ''union'', Bnd]]"
definition rx_intersect :: regex where "rx_intersect = [[Bnd, Lit ''intersect'', Bnd]]"
definition rx_except :: regex where "rx_except = [[Bnd, Lit ''except'', Bnd]]"
definition rx_distinct :: regex where "rx_distinct = [[Bnd, Lit ''distinct'', Bnd]]"

definition aggregates :: "string list" where
  "aggregates = [''avg'', ''count'', ''min'', ''max'', ''sum'', ''variance'', ''stddev'']"

definition rx_aggregate :: regex where
  "rx_aggregate = [[Bnd, Alt aggregates, Bnd]]"

definition rx_subquery :: regex where
  \<comment> \<open>the group around the last part only says what \<^verbatim>\<open>findall\<close> lists, not what matches\<close>
  "rx_subquery =
     [[Bnd, Lit ''select'', Bnd, DotStar, Bnd, Lit ''from'', Bnd, DotStar,
       Bnd, Lit ''where'', Bnd, DotStar, Bnd, Lit ''select'', Bnd, DotStar,
       Bnd, Lit ''from'', Bnd]]"

definition advanced :: "string list" where
  "advanced = [''case'', ''cast'', ''coalesce'', ''decode'', ''rank'', ''dense_rank'',
               ''row_number'', ''ntile'']"

definition rx_advanced :: regex where
  "rx_advanced = [[Bnd, Alt advanced, Bnd]]"

definition rx_and_or :: regex where
  "rx_and_or = [[Bnd, Alt [''and'', ''or''], Bnd]]"

definition count_matches :: "regex \<Rightarrow> string \<Rightarrow> int" where
  \<comment> \<open>\<^verbatim>\<open>len(re.findall(pattern, text))\<close>\<close>
  "count_matches re s = int (length (findall re s))"

definition complexity_score :: "string \<Rightarrow> int" where
  "complexity_score query =
     (let query_lower = lower query;
          complexity_score = 0;
          complexity_score = complexity_score + count_matches rx_join query_lower * 2;
          complexity_score = complexity_score + count_matches rx_where query_lower;
          complexity_score = complexity_score + count_matches rx_group_by query_lower;
          complexity_score = complexity_score + count_matches rx_order_by query_lower;
          complexity_score = complexity_score + count_matches rx_having query_lower;
          complexity_score = complexity_score + count_matches rx_union query_lower * 2;
          complexity_score = complexity_score + count_matches rx_intersect query_lower * 2;
          complexity_score = complexity_score + count_matches rx_except query_lower * 2;
          complexity_score = complexity_score + count_matches rx_distinct query_lower;
          complexity_score = complexity_score + count_matches rx_aggregate query_lower;
          subquery_count = count_matches rx_subquery query_lower;
          complexity_score = complexity_score + subquery_count * 3;
          complexity_score = complexity_score + count_matches rx_advanced query_lower;
          complexity_score = complexity_score + int (length (split_ws query_lower)) div 50;
          condition_complexity = count_matches rx_and_or query_lower;
          complexity_score = complexity_score + condition_complexity
      in complexity_score)"

datatype hardness = Easy | Medium | Hard

definition categorize_query :: "string \<Rightarrow> hardness" where
  \<comment> \<open>the labels \<^verbatim>\<open>'Easy'\<close>, \<^verbatim>\<open>'Medium'\<close> and \<^verbatim>\<open>'Hard'\<close>\<close>
  "categorize_query query =
     (let complexity_score = complexity_score query
      in if complexity_score \<le> 3 then Easy
         else if complexity_score \<le> 7 then Medium
         else Hard)"

subsection \<open>Auxiliary notions for the statements\<close>

definition literal_eval_sample :: "string \<Rightarrow> py_error + pyval" where
  \<comment> \<open>What \<^verbatim>\<open>ast.literal_eval\<close> does on four texts: \<^verbatim>\<open>[]\<close> is the empty list, \<^verbatim>\<open>{}\<close> the
      empty dictionary, \<^verbatim>\<open>7\<close> a number, and \<^verbatim>\<open>[\<close> raises SyntaxError. It is used at
      these texts only.\<close>
  "literal_eval_sample text =
     (if text = ''[]'' then Inr (PList [])
      else if text = ''{}'' then Inr (PDict [])
      else if text = ''7'' then Inr (PInt 7)
      else Inl SyntaxError)"

fun has_lower :: "pyval \<Rightarrow> bool" where
  "has_lower (PStr s) = True"
| "has_lower (PBytes b) = True"
| "has_lower v = False"

definition iterable_of_tokens :: "pyval \<Rightarrow> bool" where
  \<comment> \<open>the value can be run through and each member has a method \<^verbatim>\<open>lower\<close>\<close>
  "iterable_of_tokens v = (case py_iter v of Inl e \<Rightarrow> False | Inr ts \<Rightarrow> list_all has_lower ts)"

definition undecodable :: "(string \<Rightarrow> py_error + pyval) \<Rightarrow> string \<Rightarrow> bool" where
  \<comment> \<open>the text is rejected by the parser, or denotes a value that is no iterable of tokens\<close>
  "undecodable literal_eval text =
     (case literal_eval text of Inl e \<Rightarrow> True | Inr v \<Rightarrow> \<not> iterable_of_tokens v)"

function maximal_runs :: "string \<Rightarrow> string list" where
  \<comment> \<open>The tokenizer in the words of the specification: from left to right, one piece per
      maximal run of word characters and one per single character that is neither a word
      character nor whitespace; whitespace only separates.\<close>
  "maximal_runs [] = []"
| "maximal_runs (c # cs) =
     (if is_word c then (c # takeWhile is_word cs) # maximal_runs (dropWhile is_word cs)
      else if is_space c then maximal_runs cs
      else [c] # maximal_runs cs)"
  by pat_completeness auto
termination
  by (relation "measure length") (auto simp: length_dropWhile_le less_Suc_eq_le)

definition keyword_at :: "string list \<Rightarrow> string \<Rightarrow> nat \<Rightarrow> bool" where
  \<comment> \<open>one of the keywords stands at position \<open>i\<close> of the text, between two word boundaries\<close>
  "keyword_at ws s i =
     (at_boundary s i \<and> list_ex (\<lambda>w. lit_at w s i \<and> at_boundary s (i + length w)) ws)"

definition occurrences :: "string list \<Rightarrow> string \<Rightarrow> int" where
  \<comment> \<open>the number of places of the text where one of the keywords stands as a whole word\<close>
  "occurrences ws s = int (length (filter (keyword_at ws s) [0 ..< Suc (length s)]))"

definition weighted_score :: "string \<Rightarrow> int" where
  \<comment> \<open>The score in the words of the specification: the table of weights, applied to the
      occurrence counts in the lower-cased text.\<close>
  "weighted_score query =
     (let t = lower query in
        2 * occurrences [''join''] t
        + occurrences [''where''] t
        + occurrences [''group by''] t
        + occurrences [''order by''] t
        + occurrences [''having''] t
        + 2 * occurrences [''union''] t
        + 2 * occurrences [''intersect''] t
        + 2 * occurrences [''except''] t
        + occurrences [''distinct''] t
        + occurrences [''avg'', ''count'', ''min'', ''max'', ''sum'', ''variance'', ''stddev''] t
        + 3 * count_matches rx_subquery t
        + occurrences [''case'', ''cast'', ''coalesce'', ''decode'', ''rank'', ''dense_rank'',
                       ''row_number'', ''ntile''] t
        + int (length (split_ws t)) div 50
        + occurrences [''and'', ''or''] t)"

fun tier_rank :: "hardness \<Rightarrow> nat" where
  \<comment> \<open>the order Easy, Medium, Hard\<close>
  "tier_rank Easy = 0"
| "tier_rank Medium = 1"
| "tier_rank Hard = 2"

definition starts_apart :: "string \<Rightarrow> bool" where
  \<comment> \<open>the text is empty or begins with a character that is not a word character\<close>
  "starts_apart ext = (case ext of [] \<Rightarrow> True | c # cs \<Rightarrow> \<not> is_word c)"

definition ends_apart :: "string \<Rightarrow> bool" where
  \<comment> \<open>the text is empty or ends with a character that is not a word character\<close>
  "ends_apart base = (if base = [] then True else \<not> is_word (last base))"

definition separated :: "string list \<Rightarrow> bool" where
  \<comment> \<open>no keyword is empty, and none can start at a word boundary inside another\<close>
  "separated ws =
     list_all (\<lambda>w. w \<noteq> [] \<and>
        list_all (\<lambda>d. is_word (w ! (d - 1)) = is_word (w ! d) \<or> list_all (\<lambda>v. hd v \<noteq> w ! d) ws)
          [1 ..< length w]) ws"

fun flat_atom :: "atom \<Rightarrow> bool" where
  \<comment> \<open>an atom that never matches across a newline\<close>
  "flat_atom (Lit w) = (newline \<notin> set w)"
| "flat_atom Bnd = True"
| "flat_atom DotStar = True"
| "flat_atom a = False"

section \<open>The matcher\<close>

lemma compare_loop_matched:
  "snd (compare_loop g ref (res, m)) = m + length (filter (\<lambda>t. t \<in> g) ref)"
  by (induction ref arbitrary: res m) (simp_all add: Let_def)

lemma compare_loop_results:
  "fst (compare_loop g ref (res, m)) = fold (\<lambda>t. AList.update t (t \<in> g)) ref res"
  by (induction ref arbitrary: res m) (simp_all add: Let_def)

lemma update_entries:
  "set (AList.update k v al) \<subseteq> insert (k, v) (set al)"
  by (induction al) auto

lemma fold_update_sound:
  "(k, v) \<in> set (fold (\<lambda>t. AList.update t (t \<in> g)) ref res)
     \<Longrightarrow> (k, v) \<in> set res \<or> (k \<in> set ref \<and> v = (k \<in> g))"
proof (induction ref arbitrary: res)
  case Nil
  then show ?case by simp
next
  case (Cons t ref)
  from Cons.prems have "(k, v) \<in> set (fold (\<lambda>t. AList.update t (t \<in> g)) ref (AList.update t (t \<in> g) res))"
    by simp
  from Cons.IH [OF this] show ?case
    using update_entries [of t "t \<in> g" res] by auto
qed

lemma fold_update_keys:
  "fst ` set (fold (\<lambda>t. AList.update t (t \<in> g)) ref res) = fst ` set res \<union> set ref"
  by (induction ref arbitrary: res) (auto simp: dom_update)

lemma details_all_true:
  "list_all id (map snd (fst (compare_loop g ref ([], 0)))) = (\<forall>t \<in> set ref. t \<in> g)"
proof -
  let ?d = "fold (\<lambda>t. AList.update t (t \<in> g)) ref []"
  have snd: "\<And>k v. (k, v) \<in> set ?d \<Longrightarrow> k \<in> set ref \<and> v = (k \<in> g)"
    using fold_update_sound [of _ _ g ref "[]"] by simp
  have keys: "fst ` set ?d = set ref"
    using fold_update_keys [of g ref "[]"] by simp
  have "list_all id (map snd ?d) = (\<forall>t \<in> set ref. t \<in> g)"
  proof
    assume a: "list_all id (map snd ?d)"
    show "\<forall>t \<in> set ref. t \<in> g"
    proof
      fix t assume "t \<in> set ref"
      with keys obtain v where kv: "(t, v) \<in> set ?d" by force
      with a have "v" by (force simp: list_all_iff)
      with snd [OF kv] show "t \<in> g" by simp
    qed
  next
    assume all: "\<forall>t \<in> set ref. t \<in> g"
    have "v" if "(k, v) \<in> set ?d" for k v
      using snd [OF that] all by simp
    then show "list_all id (map snd ?d)"
      unfolding list_all_iff by auto
  qed
  then show ?thesis by (simp add: compare_loop_results)
qed

lemma filter_length_all:
  "(length (filter P xs) = length xs) = (\<forall>x \<in> set xs. P x)"
  by (metis filter_id_conv length_filter_less less_irrefl)

lemma compare_components_eq:
  "compare_components ref gen =
     Inr ((if 0 < length ref
           then of_nat (length (filter (\<lambda>t. t \<in> set gen) ref)) / of_nat (length ref) * 100
           else 0),
          fold (\<lambda>t. AList.update t (t \<in> set gen)) ref [])"
proof -
  obtain res m where lp: "compare_loop (set gen) ref ([], 0) = (res, m)"
    by (cases "compare_loop (set gen) ref ([], 0)")
  have "m = length (filter (\<lambda>t. t \<in> set gen) ref)"
    using compare_loop_matched [of "set gen" ref "[]" 0] lp by simp
  moreover have "res = fold (\<lambda>t. AList.update t (t \<in> set gen)) ref []"
    using compare_loop_results [of "set gen" ref "[]" 0] lp by simp
  ultimately show ?thesis
    by (simp add: compare_components_def lp py_truediv_def)
qed

lemma percentage_full:
  assumes "ref \<noteq> []" and "compare_components ref gen = Inr (p, d)"
  shows "(p = 100) = (\<forall>t \<in> set ref. t \<in> set gen)"
proof -
  let ?m = "length (filter (\<lambda>t. t \<in> set gen) ref)"
  have pos: "0 < length ref" using assms(1) by simp
  have "(of_nat ?m / of_nat (length ref) * 100 = (100::rat)) = (?m = length ref)"
    using pos by (simp add: field_simps)
  moreover have "p = of_nat ?m / of_nat (length ref) * 100"
    using assms(2) pos by (simp add: compare_components_eq)
  ultimately show ?thesis
    by (simp add: filter_length_all)
qed

lemma exact_flag:
  assumes "compare_components ref gen = Inr (p, d)"
  shows "list_all id (map snd d) = (\<forall>t \<in> set ref. t \<in> set gen)"
proof -
  have "d = fst (compare_loop (set gen) ref ([], 0))"
    using assms by (simp add: compare_components_eq compare_loop_results)
  then show ?thesis using details_all_true [of "set gen" ref] by simp
qed

lemma percentage_bounds:
  assumes "compare_components ref gen = Inr (p, d)"
  shows "0 \<le> p \<and> p \<le> 100"
proof -
  let ?m = "length (filter (\<lambda>t. t \<in> set gen) ref)"
  have "?m \<le> length ref" by simp
  then have "(of_nat ?m :: rat) \<le> of_nat (length ref)"
    using of_nat_le_iff by blast
  then have "0 < length ref \<Longrightarrow> (of_nat ?m :: rat) / of_nat (length ref) \<le> 1"
    by (simp add: divide_le_eq_1)
  moreover have "x \<le> 1 \<Longrightarrow> x * 100 \<le> 100" for x :: rat
    by linarith
  ultimately have "0 < length ref \<Longrightarrow> (of_nat ?m :: rat) / of_nat (length ref) * 100 \<le> 100"
    by blast
  moreover have "(0::rat) \<le> of_nat ?m / of_nat (length ref) * 100"
    by simp
  moreover have "p = (if 0 < length ref then of_nat ?m / of_nat (length ref) * 100 else 0)"
    using assms unfolding compare_components_eq by simp
  ultimately show ?thesis
    by (simp del: times_divide_eq_left)
qed

lemma evaluate_row_Some:
  assumes "compare_components ref gen = Inr (p, d)"
  shows "evaluate_row (Some text) ref gen =
           Inr (p, d, if \<forall>t \<in> set ref. t \<in> set gen then 1 else 0)"
  using exact_flag [OF assms] assms by (simp add: evaluate_row_def)

lemma evaluate_row_total:
  "\<exists>result. evaluate_row generated ref gen = Inr result"
  by (cases generated) (simp_all add: evaluate_row_def compare_components_eq)

text \<open>
  Claim C1. With an empty reference token sequence the percentage is 0, and the claim
  wants the exact-match flag false. The loop body of \<^verbatim>\<open>evaluate_sql\<close> computes the flag
  as \<^verbatim>\<open>all(details.values())\<close>, which holds of the empty dictionary: for every
  generated token sequence the row gets percentage 0, an empty map and the flag 1.
\<close>

theorem empty_reference_exact_flag:
  "evaluate_row (Some text) [] gen_tokens = Inr (0, [], 1)"
  using evaluate_row_Some [of "[]" gen_tokens 0 "[]" "text"]
  by (simp add: compare_components_eq)

text \<open>
  Claim C3. For all reference and generated token sequences \<^verbatim>\<open>compare_components\<close> returns
  (the division is guarded, it never divides by zero) and the match percentage lies
  between 0 and 100; for an empty reference sequence it is 0.
\<close>

theorem match_percentage_range:
  "(\<exists>p d. compare_components ref gen = Inr (p, d) \<and> 0 \<le> p \<and> p \<le> 100)
   \<and> compare_components [] gen = Inr (0, [])"
proof -
  obtain p d where c: "compare_components ref gen = Inr (p, d)"
    by (simp add: compare_components_eq)
  from percentage_bounds [OF c] c show ?thesis
    by (auto simp: compare_components_eq)
qed

text \<open>
  Claim C4. When the reference sequence is not empty and each of its elements occurs in
  the generated sequence, the percentage is exactly 100 and the exact-match flag is 1.
\<close>

theorem all_present_full_match:
  assumes "ref \<noteq> []" and "set ref \<subseteq> set gen"
  shows "\<exists>d. compare_components ref gen = Inr (100, d)
             \<and> evaluate_row (Some text) ref gen = Inr (100, d, 1)"
proof -
  obtain p d where c: "compare_components ref gen = Inr (p, d)"
    by (simp add: compare_components_eq)
  have "p = 100" using percentage_full [OF assms(1) c] assms(2) by auto
  with c evaluate_row_Some [OF c, of "text"] assms(2) show ?thesis by auto
qed

theorem all_present_full_match_witness:
  "[''select'', ''*'', ''from'', ''t''] \<noteq> []
   \<and> set [''select'', ''*'', ''from'', ''t'']
         \<subseteq> set (tokenize_sql (Some ''SELECT * FROM t WHERE x = 1''))
   \<and> (\<exists>d. compare_components [''select'', ''*'', ''from'', ''t'']
              (tokenize_sql (Some ''SELECT * FROM t WHERE x = 1'')) = Inr (100, d)
           \<and> evaluate_row (Some ''SELECT * FROM t WHERE x = 1'') [''select'', ''*'', ''from'', ''t'']
                (tokenize_sql (Some ''SELECT * FROM t WHERE x = 1'')) = Inr (100, d, 1))"
proof -
  let ?ref = "[''select'', ''*'', ''from'', ''t'']"
  let ?gen = "tokenize_sql (Some ''SELECT * FROM t WHERE x = 1'')"
  have gen: "?gen = [''select'', ''*'', ''from'', ''t'', ''where'', ''x'', ''='', ''1'']"
    by code_simp
  have h1: "?ref \<noteq> []" by simp
  have h2: "set ?ref \<subseteq> set ?gen" unfolding gen by simp
  show ?thesis
    using h1 h2 all_present_full_match [OF h1 h2, of "''SELECT * FROM t WHERE x = 1''"]
    by blast
qed

text \<open>
  Claim C5. The generated tokens are used as a set: a generated sequence with the same
  elements (in particular a permutation of it, or one with an element duplicated) gives
  the same percentage, presence map and flag. The reference tokens are not: duplicating
  an element of the reference sequence can change the percentage.
\<close>

theorem generated_tokens_as_set:
  "(set gen' = set gen \<longrightarrow>
      evaluate_row (Some text) ref gen' = evaluate_row (Some text) ref gen)
   \<and> (mset gen' = mset gen \<longrightarrow>
      evaluate_row (Some text) ref gen' = evaluate_row (Some text) ref gen)
   \<and> (i < length gen \<longrightarrow>
      evaluate_row (Some text) ref (take i gen @ gen ! i # drop i gen)
        = evaluate_row (Some text) ref gen)
   \<and> evaluate_row (Some ''a'') [''a'', ''a'', ''b''] [''a'']
        = Inr (200 / 3, [(''a'', True), (''b'', False)], 0)
   \<and> evaluate_row (Some ''a'') [''a'', ''b''] [''a'']
        = Inr (50, [(''a'', True), (''b'', False)], 0)"
proof -
  have eq: "evaluate_row (Some text) ref g' = evaluate_row (Some text) ref g"
    if "set g' = set g" for g' g :: "'a list"
    using that by (simp add: evaluate_row_def compare_components_eq)
  have dup: "set (take i gen @ gen ! i # drop i gen) = set gen" if "i < length gen"
  proof -
    have u: "set (take i gen) \<union> set (drop i gen) = set gen"
      by (metis append_take_drop_id set_append)
    have "gen ! i \<in> set gen"
      using that by simp
    then show ?thesis
      by (simp add: u insert_absorb)
  qed
  have perm: "set gen' = set gen" if "mset gen' = mset gen"
    using that by (rule mset_eq_setD)
  have v1: "evaluate_row (Some ''a'') [''a'', ''a'', ''b''] [''a'']
        = Inr (200 / 3, [(''a'', True), (''b'', False)], 0)"
    by (simp add: evaluate_row_def compare_components_eq)
  have v2: "evaluate_row (Some ''a'') [''a'', ''b''] [''a'']
        = Inr (50, [(''a'', True), (''b'', False)], 0)"
    by (simp add: evaluate_row_def compare_components_eq)
  show ?thesis using eq dup perm v1 v2 by blast
qed

theorem generated_tokens_as_set_witness:
  "set [''b'', ''a'', ''b''] = set [''a'', ''b'']
   \<and> mset [''b'', ''a''] = mset [''a'', ''b'']
   \<and> (1::nat) < length [''a'', ''b'']
   \<and> evaluate_row (Some ''q'') [''a'', ''c''] [''b'', ''a'', ''b'']
        = evaluate_row (Some ''q'') [''a'', ''c''] [''a'', ''b'']
   \<and> evaluate_row (Some ''q'') [''a'', ''c''] [''b'', ''a'']
        = evaluate_row (Some ''q'') [''a'', ''c''] [''a'', ''b'']
   \<and> evaluate_row (Some ''q'') [''a'', ''c''] [''a'', ''b'', ''b'']
        = evaluate_row (Some ''q'') [''a'', ''c''] [''a'', ''b'']
   \<and> evaluate_row (Some ''q'') [''a'', ''c''] [''a'', ''b'']
        = Inr (50, [(''a'', True), (''c'', False)], 0)"
proof -
  have h1: "set [''b'', ''a'', ''b''] = set [''a'', ''b'']" by auto
  have h2: "mset [''b'', ''a''] = mset [''a'', ''b'']" by simp
  have h3: "(1::nat) < length [''a'', ''b'']" by simp
  have v: "evaluate_row (Some ''q'') [''a'', ''c''] [''a'', ''b'']
             = Inr (50, [(''a'', True), (''c'', False)], 0)"
    by (simp add: evaluate_row_def compare_components_eq)
  show ?thesis
    using h1 h2 h3 v
      generated_tokens_as_set [of "[''b'', ''a'', ''b'']" "[''a'', ''b'']" "''q''" "[''a'', ''c'']" 1]
      generated_tokens_as_set [of "[''b'', ''a'']" "[''a'', ''b'']" "''q''" "[''a'', ''c'']" 1]
    by simp
qed

section \<open>The row evaluator\<close>

lemma apply_reference_tokens_Inr:
  "apply_reference_tokens lit data = Inr refs \<Longrightarrow>
     length refs = length data
     \<and> (\<forall>i < length data. reference_tokens lit (query_toks (data ! i)) = Inr (refs ! i))"
proof (induction data arbitrary: refs)
  case Nil
  then show ?case by simp
next
  case (Cons r rows)
  from Cons.prems obtain ts tss where
    ts: "reference_tokens lit (query_toks r) = Inr ts" and
    tss: "apply_reference_tokens lit rows = Inr tss" and
    refs: "refs = ts # tss"
    by (auto split: sum.splits)
  from Cons.IH [OF tss] have
    len: "length tss = length rows" and
    each: "\<And>i. i < length rows \<Longrightarrow> reference_tokens lit (query_toks (rows ! i)) = Inr (tss ! i)"
    by simp_all
  show ?case
  proof (intro conjI allI impI)
    show "length refs = length (r # rows)" using len refs by simp
  next
    fix i assume "i < length (r # rows)"
    then show "reference_tokens lit (query_toks ((r # rows) ! i)) = Inr (refs ! i)"
      using ts each refs by (cases i) simp_all
  qed
qed

lemma apply_reference_tokens_fails:
  "i < length data \<Longrightarrow> reference_tokens lit (query_toks (data ! i)) = Inl e
     \<Longrightarrow> \<exists>e'. apply_reference_tokens lit data = Inl e'"
proof (induction data arbitrary: i)
  case Nil
  then show ?case by simp
next
  case (Cons r rows)
  show ?case
  proof (cases i)
    case 0
    with Cons.prems show ?thesis by simp
  next
    case (Suc j)
    with Cons.prems have "\<exists>e'. apply_reference_tokens lit rows = Inl e'"
      using Cons.IH [of j] by simp
    then show ?thesis by (auto split: sum.splits)
  qed
qed

lemma evaluate_rows_total:
  "\<exists>results. evaluate_rows xs = Inr results \<and> length results = length xs
     \<and> (\<forall>i < length xs.
           evaluate_row (generated_query (fst (xs ! i))) (fst (snd (xs ! i))) (snd (snd (xs ! i)))
             = Inr (results ! i))"
proof (induction xs)
  case Nil
  then show ?case by simp
next
  case (Cons x xs)
  obtain r rt gt where x: "x = (r, rt, gt)" by (cases x)
  obtain result where res: "evaluate_row (generated_query r) rt gt = Inr result"
    using evaluate_row_total by blast
  from Cons.IH obtain results where
    rs: "evaluate_rows xs = Inr results" "length results = length xs"
    and each: "\<And>i. i < length xs \<Longrightarrow>
           evaluate_row (generated_query (fst (xs ! i))) (fst (snd (xs ! i))) (snd (snd (xs ! i)))
             = Inr (results ! i)"
    by blast
  have "evaluate_rows (x # xs) = Inr (result # results)"
    using x res rs(1) by simp
  moreover have "length (result # results) = length (x # xs)" using rs(2) by simp
  moreover have "evaluate_row (generated_query (fst ((x # xs) ! i))) (fst (snd ((x # xs) ! i)))
                    (snd (snd ((x # xs) ! i))) = Inr ((result # results) ! i)"
    if "i < length (x # xs)" for i
    using that x res each by (cases i) simp_all
  ultimately show ?case by blast
qed

lemma evaluate_sql_rows:
  assumes "apply_reference_tokens lit data = Inr refs"
  shows "\<exists>ps ds xs. evaluate_sql lit data = Inr (ps, ds, xs)
           \<and> length ps = length data \<and> length ds = length data \<and> length xs = length data
           \<and> (\<forall>i < length data.
                 evaluate_row (generated_query (data ! i)) (refs ! i)
                       (map PStr (tokenize_sql (generated_query (data ! i))))
                   = Inr (ps ! i, ds ! i, xs ! i))"
proof -
  define gens where "gens = map (\<lambda>r. map PStr (tokenize_sql (generated_query r))) data"
  define zs where "zs = zip data (zip refs gens)"
  have len: "length refs = length data"
    using apply_reference_tokens_Inr [OF assms] by simp
  have lz: "length zs = length data" using len by (simp add: zs_def gens_def)
  from evaluate_rows_total [of zs] obtain res where
    res: "evaluate_rows zs = Inr res" "length res = length zs"
    and each: "\<And>i. i < length zs \<Longrightarrow>
           evaluate_row (generated_query (fst (zs ! i))) (fst (snd (zs ! i))) (snd (snd (zs ! i)))
             = Inr (res ! i)"
    by blast
  have ev: "evaluate_sql lit data = Inr (map fst res, map (fst \<circ> snd) res, map (snd \<circ> snd) res)"
    using assms res(1) by (simp add: evaluate_sql_def Let_def zs_def gens_def)
  have "evaluate_row (generated_query (data ! i)) (refs ! i)
                       (map PStr (tokenize_sql (generated_query (data ! i))))
          = Inr (map fst res ! i, map (fst \<circ> snd) res ! i, map (snd \<circ> snd) res ! i)"
    if "i < length data" for i
  proof -
    have "zs ! i = (data ! i, refs ! i, map PStr (tokenize_sql (generated_query (data ! i))))"
      using that len by (simp add: zs_def gens_def)
    moreover have "i < length zs" "i < length res" using that lz res(2) by simp_all
    ultimately show ?thesis using each [of i] by simp
  qed
  with ev lz res(2) show ?thesis
    by (intro exI [of _ "map fst res"] exI [of _ "map (fst \<circ> snd) res"]
              exI [of _ "map (snd \<circ> snd) res"]) simp
qed

text \<open>
  Claim C10. When every cell of \<^verbatim>\<open>query_toks\<close> decodes, \<^verbatim>\<open>evaluate_sql\<close> returns its
  three lists, and for a row with a generated query and a reference token sequence that
  is not empty the exact-match flag is 1 exactly when the percentage is 100.
\<close>

theorem exact_flag_iff_full_percentage:
  assumes "apply_reference_tokens literal_eval data = Inr refs"
    and "i < length data"
    and "generated_query (data ! i) = Some text"
    and "refs ! i \<noteq> []"
  shows "\<exists>ps ds xs. evaluate_sql literal_eval data = Inr (ps, ds, xs)
           \<and> ((xs ! i = 1) = (ps ! i = 100))"
proof -
  let ?gen = "map PStr (tokenize_sql (Some text))"
  from evaluate_sql_rows [OF assms(1)] obtain ps ds xs where
    ev: "evaluate_sql literal_eval data = Inr (ps, ds, xs)" and
    row: "evaluate_row (Some text) (refs ! i) ?gen = Inr (ps ! i, ds ! i, xs ! i)"
    using assms(2,3) by auto
  obtain p d where c: "compare_components (refs ! i) ?gen = Inr (p, d)"
    by (simp add: compare_components_eq)
  from row evaluate_row_Some [OF c, of "text"]
  have p: "ps ! i = p" and x: "xs ! i = (if \<forall>t \<in> set (refs ! i). t \<in> set ?gen then 1 else 0)"
    by simp_all
  have "(xs ! i = 1) = (ps ! i = 100)"
    unfolding p x percentage_full [OF assms(4) c] by simp
  with ev show ?thesis by blast
qed

theorem exact_flag_iff_full_percentage_witness:
  "apply_reference_tokens literal_eval_sample
      [\<lparr>generated_query = Some ''SELECT a'', query_toks = PList [PStr ''SELECT'', PStr ''b'']\<rparr>]
     = Inr [[PStr ''select'', PStr ''b'']]
   \<and> (0::nat) < length [\<lparr>generated_query = Some ''SELECT a'', query_toks = PList [PStr ''SELECT'', PStr ''b'']\<rparr>]
   \<and> generated_query ([\<lparr>generated_query = Some ''SELECT a'', query_toks = PList [PStr ''SELECT'', PStr ''b'']\<rparr>] ! 0)
       = Some ''SELECT a''
   \<and> [[PStr ''select'', PStr ''b'']] ! 0 \<noteq> []
   \<and> (\<exists>ps ds xs.
         evaluate_sql literal_eval_sample
           [\<lparr>generated_query = Some ''SELECT a'', query_toks = PList [PStr ''SELECT'', PStr ''b'']\<rparr>]
           = Inr (ps, ds, xs)
         \<and> ((xs ! 0 = 1) = (ps ! 0 = 100)))"
proof -
  let ?data = "[\<lparr>generated_query = Some ''SELECT a'', query_toks = PList [PStr ''SELECT'', PStr ''b'']\<rparr>]"
  have h1: "apply_reference_tokens literal_eval_sample ?data = Inr [[PStr ''select'', PStr ''b'']]"
    by code_simp
  have h2: "(0::nat) < length ?data" by simp
  have h3: "generated_query (?data ! 0) = Some ''SELECT a''" by simp
  have h4: "[[PStr ''select'', PStr ''b'']] ! 0 \<noteq> []" by simp
  show ?thesis
    using h1 h2 h3 h4 exact_flag_iff_full_percentage [OF h1 h2 h3 h4] by blast
qed

text \<open>
  Claim C8, as stated, fails: \<^verbatim>\<open>evaluate_sql\<close> decodes the \<^verbatim>\<open>query_toks\<close> cell of every row
  before its loop starts, so a row without a generated query whose cell holds the text
  \<^verbatim>\<open>[\<close> makes the evaluation raise; no percentage, map or flag is produced.
\<close>

theorem null_generated_malformed_reference:
  "evaluate_sql literal_eval_sample [\<lparr>generated_query = None, query_toks = PStr ''[''\<rparr>]
     = Inl SyntaxError"
  by (simp add: evaluate_sql_def reference_tokens_def literal_eval_sample_def)

text \<open>
  Claim C8, amended. When every cell of \<^verbatim>\<open>query_toks\<close> decodes, \<^verbatim>\<open>evaluate_sql\<close> returns
  its three lists, and a row without a generated query gets percentage 0, an empty
  presence map and the flag 0, whatever its decoded reference tokens are.
\<close>

theorem null_generated_fallback:
  assumes "apply_reference_tokens literal_eval data = Inr refs"
    and "i < length data"
    and "generated_query (data ! i) = None"
  shows "\<exists>ps ds xs. evaluate_sql literal_eval data = Inr (ps, ds, xs)
           \<and> ps ! i = 0 \<and> ds ! i = [] \<and> xs ! i = 0"
proof -
  from evaluate_sql_rows [OF assms(1)] obtain ps ds xs where
    ev: "evaluate_sql literal_eval data = Inr (ps, ds, xs)" and
    row: "evaluate_row (generated_query (data ! i)) (refs ! i)
                (map PStr (tokenize_sql (generated_query (data ! i))))
            = Inr (ps ! i, ds ! i, xs ! i)"
    using assms(2) by blast
  from row have "ps ! i = 0 \<and> ds ! i = [] \<and> xs ! i = 0"
    by (simp add: assms(3) evaluate_row_def)
  with ev show ?thesis by blast
qed

theorem null_generated_fallback_witness:
  "apply_reference_tokens literal_eval_sample
      [\<lparr>generated_query = None, query_toks = PList [PStr ''select'', PStr ''a'']\<rparr>]
     = Inr [[PStr ''select'', PStr ''a'']]
   \<and> (0::nat) < length [\<lparr>generated_query = None, query_toks = PList [PStr ''select'', PStr ''a'']\<rparr>]
   \<and> generated_query ([\<lparr>generated_query = None, query_toks = PList [PStr ''select'', PStr ''a'']\<rparr>] ! 0) = None
   \<and> (\<exists>ps ds xs.
         evaluate_sql literal_eval_sample
           [\<lparr>generated_query = None, query_toks = PList [PStr ''select'', PStr ''a'']\<rparr>]
           = Inr (ps, ds, xs)
         \<and> ps ! 0 = 0 \<and> ds ! 0 = [] \<and> xs ! 0 = 0)"
proof -
  let ?data = "[\<lparr>generated_query = None, query_toks = PList [PStr ''select'', PStr ''a'']\<rparr>]"
  have h1: "apply_reference_tokens literal_eval_sample ?data = Inr [[PStr ''select'', PStr ''a'']]"
    by (simp add: reference_tokens_def lower_def lower_char_def)
  have h2: "(0::nat) < length ?data" by simp
  have h3: "generated_query (?data ! 0) = None" by simp
  show ?thesis
    using h1 h2 h3 null_generated_fallback [OF h1 h2 h3] by blast
qed

lemma lower_all_fails:
  "\<not> list_all has_lower ts \<Longrightarrow> \<exists>e. lower_all ts = Inl e"
proof (induction ts)
  case Nil
  then show ?case by simp
next
  case (Cons t ts)
  show ?case
  proof (cases "has_lower t")
    case True
    with Cons have "\<exists>e. lower_all ts = Inl e" by simp
    then show ?thesis by (auto split: sum.splits)
  next
    case False
    then have "py_lower t = Inl AttributeError" by (cases t) simp_all
    then show ?thesis by simp
  qed
qed

lemma undecodable_reference_tokens:
  assumes "undecodable literal_eval text"
  shows "\<exists>e. reference_tokens literal_eval (PStr text) = Inl e"
proof (cases "literal_eval text")
  case (Inl e)
  then show ?thesis by (simp add: reference_tokens_def)
next
  case (Inr v)
  with assms have ni: "\<not> iterable_of_tokens v" by (simp add: undecodable_def)
  show ?thesis
  proof (cases "py_iter v")
    case (Inl e)
    with Inr show ?thesis by (simp add: reference_tokens_def)
  next
    case it: (Inr ts)
    with ni have "\<not> list_all has_lower ts" by (simp add: iterable_of_tokens_def)
    from lower_all_fails [OF this] Inr it show ?thesis by (simp add: reference_tokens_def)
  qed
qed

text \<open>
  Claim C9, as stated, fails: the cell is decoded by \<^verbatim>\<open>ast.literal_eval\<close> and whatever
  comes out is run through with \<^verbatim>\<open>for\<close>. The text \<^verbatim>\<open>{}\<close> denotes a dictionary, not a
  sequence of strings; it has no members, the reference token list is empty without any
  error, and the row is scored (percentage 0, flag 1).
\<close>

theorem empty_dictionary_reference_accepted:
  "evaluate_sql literal_eval_sample [\<lparr>generated_query = Some ''select 1'', query_toks = PStr ''{}''\<rparr>]
     = Inr ([0], [[]], [1])"
  by (simp add: evaluate_sql_def reference_tokens_def literal_eval_sample_def
        evaluate_row_def compare_components_eq)

text \<open>
  Claim C9, amended. When the text in a cell of \<^verbatim>\<open>query_toks\<close> is rejected by
  \<^verbatim>\<open>ast.literal_eval\<close>, or denotes a value that cannot be run through, or one with a
  member that has no method \<^verbatim>\<open>lower\<close>, then \<^verbatim>\<open>evaluate_sql\<close> raises and returns nothing.
\<close>

theorem undecodable_reference_fails:
  assumes "i < length data"
    and "query_toks (data ! i) = PStr text"
    and "undecodable literal_eval text"
  shows "\<exists>e. evaluate_sql literal_eval data = Inl e"
proof -
  from undecodable_reference_tokens [OF assms(3)] obtain e where
    "reference_tokens literal_eval (query_toks (data ! i)) = Inl e"
    using assms(2) by auto
  from apply_reference_tokens_fails [OF assms(1) this] obtain e' where
    "apply_reference_tokens literal_eval data = Inl e'" by blast
  then show ?thesis by (simp add: evaluate_sql_def)
qed

theorem undecodable_reference_fails_witness:
  "(0::nat) < length [\<lparr>generated_query = Some ''select 1'', query_toks = PStr ''7''\<rparr>]
   \<and> query_toks ([\<lparr>generated_query = Some ''select 1'', query_toks = PStr ''7''\<rparr>] ! 0) = PStr ''7''
   \<and> undecodable literal_eval_sample ''7''
   \<and> (\<exists>e. evaluate_sql literal_eval_sample
             [\<lparr>generated_query = Some ''select 1'', query_toks = PStr ''7''\<rparr>] = Inl e)"
proof -
  let ?data = "[\<lparr>generated_query = Some ''select 1'', query_toks = PStr ''7''\<rparr>]"
  have h1: "(0::nat) < length ?data" by simp
  have h2: "query_toks (?data ! 0) = PStr ''7''" by simp
  have h3: "undecodable literal_eval_sample ''7''"
    by (simp add: undecodable_def literal_eval_sample_def iterable_of_tokens_def)
  show ?thesis
    using h1 h2 h3 undecodable_reference_fails [OF h1 h2 h3] by blast
qed

section \<open>The tokenizer\<close>

lemma first_some_Some:
  "first_some Some xs = (case xs of [] \<Rightarrow> None | x # _ \<Rightarrow> Some x)"
  by (cases xs) simp_all

lemma drop_Cons_nth:
  "i < length s \<Longrightarrow> drop i s = s ! i # drop (Suc i) s"
  by (simp add: Cons_nth_drop_Suc)

lemma word_run_pos:
  "(0 < word_run s i) = (i < length s \<and> is_word (s ! i))"
proof (cases "i < length s")
  case True
  then show ?thesis by (simp add: word_run_def drop_Cons_nth)
next
  case False
  then show ?thesis by (simp add: word_run_def)
qed

lemma word_run_le:
  "i \<le> length s \<Longrightarrow> i + word_run s i \<le> length s"
proof -
  assume "i \<le> length s"
  have "word_run s i \<le> length (drop i s)"
    unfolding word_run_def by (rule length_takeWhile_le)
  then show ?thesis using \<open>i \<le> length s\<close> by simp
qed

lemma rmatch_WordPlus:
  "rmatch [WordPlus] s i = (if 0 < word_run s i then Some (i + word_run s i) else None)"
proof (cases "word_run s i")
  case 0
  then show ?thesis by simp
next
  case (Suc n)
  have "rev [Suc i ..< Suc (i + Suc n)] = Suc (i + n) # rev [Suc i ..< Suc (i + n)]"
    by simp
  then show ?thesis using Suc by (simp add: first_some_Some del: upt_Suc)
qed

lemma rmatch_alts_token:
  "rmatch_alts rx_token s i =
     (if i < length s \<and> is_word (s ! i) then Some (i + word_run s i)
      else if i < length s \<and> \<not> is_space (s ! i) then Some (Suc i)
      else None)"
  using word_run_pos [of s i]
  by (auto simp add: rmatch_alts_def rx_token_def rmatch_WordPlus simp del: rmatch.simps(5))

lemma findall_from_end:
  "length s < i \<Longrightarrow> findall_from re s i = []"
  by (subst findall_from.simps) simp

lemma findall_from_None:
  "i \<le> length s \<Longrightarrow> rmatch_alts re s i = None
     \<Longrightarrow> findall_from re s i = findall_from re s (Suc i)"
  by (subst findall_from.simps) simp

lemma findall_from_Some:
  "i \<le> length s \<Longrightarrow> rmatch_alts re s i = Some e \<Longrightarrow> i < e
     \<Longrightarrow> findall_from re s i = substr s i e # findall_from re s e"
  by (subst findall_from.simps) simp

lemma findall_token_runs:
  "i \<le> length s \<Longrightarrow> findall_from rx_token s i = maximal_runs (drop i s)"
proof (induction "length s - i" arbitrary: i rule: less_induct)
  case less
  show ?case
  proof (cases "i < length s")
    case False
    with less.prems have i: "i = length s" by simp
    have "rmatch_alts rx_token s i = None" using i by (simp add: rmatch_alts_token)
    then have "findall_from rx_token s i = findall_from rx_token s (Suc i)"
      using less.prems by (rule findall_from_None [rotated])
    also have "\<dots> = []"
      using i by (simp add: findall_from_end)
    finally show ?thesis using i by simp
  next
    case True
    let ?c = "s ! i" and ?cs = "drop (Suc i) s"
    have dr: "drop i s = ?c # ?cs" using True by (rule drop_Cons_nth)
    show ?thesis
    proof (cases "is_word ?c")
      case w: True
      let ?n = "word_run s i"
      have pos: "0 < ?n" using True w by (simp add: word_run_pos)
      have le: "i + ?n \<le> length s" using True word_run_le [of i s] by simp
      have m: "rmatch_alts rx_token s i = Some (i + ?n)"
        using True w by (simp add: rmatch_alts_token)
      have sub: "substr s i (i + ?n) = ?c # takeWhile is_word ?cs"
      proof -
        have "substr s i (i + ?n) = take ?n (drop i s)" by (simp add: substr_def)
        also have "\<dots> = takeWhile is_word (drop i s)"
          unfolding word_run_def by (rule takeWhile_eq_take [symmetric])
        also have "\<dots> = ?c # takeWhile is_word ?cs" using w by (simp add: dr)
        finally show ?thesis .
      qed
      have rest: "drop (i + ?n) s = dropWhile is_word ?cs"
      proof -
        have "drop (i + ?n) s = drop ?n (drop i s)" by (simp add: add.commute)
        also have "\<dots> = dropWhile is_word (drop i s)"
          unfolding word_run_def by (rule dropWhile_eq_drop [symmetric])
        also have "\<dots> = dropWhile is_word ?cs" using w by (simp add: dr)
        finally show ?thesis .
      qed
      have "findall_from rx_token s (i + ?n) = maximal_runs (drop (i + ?n) s)"
        using less.hyps [of "i + ?n"] pos le True by simp
      then have "findall_from rx_token s i = (?c # takeWhile is_word ?cs) # maximal_runs (dropWhile is_word ?cs)"
        using findall_from_Some [OF less.prems m] pos sub rest by simp
      then show ?thesis using w by (simp add: dr)
    next
      case nw: False
      have ih: "findall_from rx_token s (Suc i) = maximal_runs ?cs"
        using less.hyps [of "Suc i"] True by simp
      show ?thesis
      proof (cases "is_space ?c")
        case True
        have "rmatch_alts rx_token s i = None"
          using nw True by (simp add: rmatch_alts_token)
        then have "findall_from rx_token s i = findall_from rx_token s (Suc i)"
          using less.prems by (rule findall_from_None [rotated])
        then show ?thesis using ih nw True by (simp add: dr)
      next
        case False
        have m: "rmatch_alts rx_token s i = Some (Suc i)"
          using nw False \<open>i < length s\<close> by (simp add: rmatch_alts_token)
        have "substr s i (Suc i) = [?c]" by (simp add: substr_def dr)
        then have "findall_from rx_token s i = [?c] # findall_from rx_token s (Suc i)"
          using findall_from_Some [OF less.prems m] by simp
        then show ?thesis using ih nw False by (simp add: dr)
      qed
    qed
  qed
qed

text \<open>
  Claim C2. For every string, what \<^verbatim>\<open>re.findall\<close> finds with the pattern of
  \<^verbatim>\<open>tokenize_sql\<close> is, from left to right, one token per maximal run of word characters and
  one per single character that is neither a word character nor whitespace, nothing for
  whitespace, and every token is lower-cased. The query of the specification splits into
  nine tokens, \<^verbatim>\<open>>=\<close> giving two.
\<close>

theorem tokenize_sql_maximal_runs:
  "tokenize_sql (Some text) = map lower (maximal_runs text)
   \<and> tokenize_sql (Some ''SELECT a FROM t WHERE a>=1'')
       = [''select'', ''a'', ''from'', ''t'', ''where'', ''a'', ''>'', ''='', ''1'']"
proof -
  have "tokenize_sql (Some text) = map lower (maximal_runs text)"
    using findall_token_runs [of 0 "text"] by (simp add: tokenize_sql_def findall_def)
  moreover have "tokenize_sql (Some ''SELECT a FROM t WHERE a>=1'')
       = [''select'', ''a'', ''from'', ''t'', ''where'', ''a'', ''>'', ''='', ''1'']"
    by code_simp
  ultimately show ?thesis by simp
qed

section \<open>The classifier\<close>

subsection \<open>The first success in a list of attempts\<close>

lemma first_some_None_iff:
  "(first_some f xs = None) = (\<forall>x \<in> set xs. f x = None)"
  by (induction xs) (auto split: option.splits)

lemma first_some_SomeD:
  "first_some f xs = Some y \<Longrightarrow> \<exists>x \<in> set xs. f x = Some y"
  by (induction xs) (auto split: option.splits)

lemma first_some_cong:
  "(\<And>x. x \<in> set xs \<Longrightarrow> f x = g x) \<Longrightarrow> first_some f xs = first_some g xs"
  by (induction xs) (auto split: option.splits)

lemma first_some_rev_upt:
  "first_some f (rev [a ..< b]) = Some y \<Longrightarrow>
     \<exists>k. a \<le> k \<and> k < b \<and> f k = Some y \<and> (\<forall>k'. k < k' \<and> k' < b \<longrightarrow> f k' = None)"
proof (induction b)
  case 0
  then show ?case by simp
next
  case (Suc b)
  show ?case
  proof (cases "a \<le> b")
    case False
    with Suc.prems show ?thesis by simp
  next
    case True
    then have r: "rev [a ..< Suc b] = b # rev [a ..< b]" by simp
    show ?thesis
    proof (cases "f b")
      case (Some z)
      with Suc.prems r have "z = y" by simp
      with Some True show ?thesis
        by (intro exI [of _ b]) auto
    next
      case None
      with Suc.prems r have "first_some f (rev [a ..< b]) = Some y" by simp
      from Suc.IH [OF this] obtain k where
        k: "a \<le> k" "k < b" "f k = Some y" "\<forall>k'. k < k' \<and> k' < b \<longrightarrow> f k' = None"
        by blast
      have "\<forall>k'. k < k' \<and> k' < Suc b \<longrightarrow> f k' = None"
        using k(4) None by (auto simp: less_Suc_eq)
      with k show ?thesis by (intro exI [of _ k]) auto
    qed
  qed
qed

subsection \<open>Literals and boundaries\<close>

lemma lit_at_length:
  "lit_at w s i \<Longrightarrow> i + length w \<le> length s \<or> w = []"
proof -
  assume "lit_at w s i"
  then have "length (take (length w) (drop i s)) = length w"
    by (simp add: lit_at_def)
  then have "length w \<le> length s - i" by simp
  then show ?thesis by (cases w) auto
qed

lemma lit_at_nth:
  "lit_at w s i \<Longrightarrow> j < length w \<Longrightarrow> s ! (i + j) = w ! j"
proof -
  assume l: "lit_at w s i" and j: "j < length w"
  from l have w: "w = take (length w) (drop i s)" by (simp add: lit_at_def)
  from lit_at_length [OF l] j have le: "i + length w \<le> length s" by auto
  have "w ! j = take (length w) (drop i s) ! j" using w by simp
  also have "\<dots> = drop i s ! j" using j by simp
  also have "\<dots> = s ! (i + j)" using le j by simp
  finally show ?thesis by simp
qed

lemma at_boundary_inner:
  "0 < k \<Longrightarrow> k < length s \<Longrightarrow> at_boundary s k = (is_word (s ! (k - 1)) \<noteq> is_word (s ! k))"
  by (simp add: at_boundary_def)

lemma no_overlap:
  assumes sep: "separated ws" and w: "w \<in> set ws" and l: "lit_at w s i"
    and k: "i < k" "k < i + length w"
  shows "\<not> keyword_at ws s k"
proof
  assume ka: "keyword_at ws s k"
  define d where "d = k - i"
  have d: "0 < d" "d < length w" "k = i + d" using k by (simp_all add: d_def)
  have wne: "w \<noteq> []" using d by auto
  from lit_at_length [OF l] wne have le: "i + length w \<le> length s" by simp
  have sk: "s ! k = w ! d" using lit_at_nth [OF l d(2)] d(3) by simp
  have sk1: "s ! (k - 1) = w ! (d - 1)"
    using lit_at_nth [OF l, of "d - 1"] d by simp
  from ka have b: "at_boundary s k" by (simp add: keyword_at_def)
  have "0 < k" "k < length s" using k le by simp_all
  from at_boundary_inner [OF this] b sk sk1
  have diff: "is_word (w ! (d - 1)) \<noteq> is_word (w ! d)" by simp
  from ka obtain v where v: "v \<in> set ws" "lit_at v s k"
    by (auto simp: keyword_at_def list_ex_iff)
  from sep v(1) have vne: "v \<noteq> []" by (auto simp: separated_def list_all_iff)
  then have "0 < length v" by simp
  from lit_at_nth [OF v(2) this] have "s ! k = v ! 0" by simp
  with vne have hv: "hd v = w ! d" using sk by (simp add: hd_conv_nth)
  from sep w d have "is_word (w ! (d - 1)) = is_word (w ! d) \<or> (\<forall>v \<in> set ws. hd v \<noteq> w ! d)"
    by (auto simp: separated_def list_all_iff)
  with diff v(1) hv show False by blast
qed

subsection \<open>Counting keyword matches\<close>

lemma filter_upt_skip:
  assumes "i \<le> e" "e \<le> n" "\<And>k. i \<le> k \<Longrightarrow> k < e \<Longrightarrow> \<not> P k"
  shows "filter P [i ..< n] = filter P [e ..< n]"
proof -
  have "[i ..< n] = [i ..< e] @ [e ..< n]"
    using assms(1,2) by (metis le_Suc_ex upt_add_eq_append)
  moreover have "filter P [i ..< e] = []"
    using assms(3) by (auto simp: filter_empty_conv)
  ultimately show ?thesis by simp
qed

lemma count_by_positions:
  assumes hit: "\<And>i. i \<le> length s \<Longrightarrow> (rmatch_alts re s i = None) = (\<not> P i)"
    and span: "\<And>i e. i \<le> length s \<Longrightarrow> rmatch_alts re s i = Some e \<Longrightarrow>
                 i < e \<and> e \<le> length s \<and> (\<forall>k. i < k \<and> k < e \<longrightarrow> \<not> P k)"
  shows "i \<le> length s \<Longrightarrow>
           length (findall_from re s i) = length (filter P [i ..< Suc (length s)])"
proof (induction "length s - i" arbitrary: i rule: less_induct)
  case less
  have up: "[i ..< Suc (length s)] = i # [Suc i ..< Suc (length s)]"
    using less.prems by (simp add: upt_conv_Cons)
  show ?case
  proof (cases "rmatch_alts re s i")
    case None
    then have np: "\<not> P i" using hit [OF less.prems] by simp
    have step: "findall_from re s i = findall_from re s (Suc i)"
      using less.prems None by (rule findall_from_None)
    show ?thesis
    proof (cases "i = length s")
      case True
      then show ?thesis using step np up by (simp add: findall_from_end)
    next
      case False
      then have "length (findall_from re s (Suc i)) = length (filter P [Suc i ..< Suc (length s)])"
        using less.hyps [of "Suc i"] less.prems by simp
      then show ?thesis using step np up by simp
    qed
  next
    case (Some e)
    from span [OF less.prems Some] have e: "i < e" "e \<le> length s"
      and free: "\<And>k. i < k \<Longrightarrow> k < e \<Longrightarrow> \<not> P k" by auto
    have pi: "P i" using hit [OF less.prems] Some by simp
    have step: "findall_from re s i = substr s i e # findall_from re s e"
      using less.prems Some e(1) by (rule findall_from_Some)
    have ih: "length (findall_from re s e) = length (filter P [e ..< Suc (length s)])"
      using less.hyps [of e] e less.prems by simp
    have "filter P [Suc i ..< Suc (length s)] = filter P [e ..< Suc (length s)]"
      using e free by (intro filter_upt_skip) auto
    then show ?thesis using step ih pi up by simp
  qed
qed

lemma rmatch_keyword_Alt:
  "rmatch [Bnd, Alt ws, Bnd] s i =
     (if at_boundary s i
      then first_some (\<lambda>w. if lit_at w s i \<and> at_boundary s (i + length w)
                            then Some (i + length w) else None) ws
      else None)"
  by (auto intro: first_some_cong)

lemma rmatch_keyword_Lit:
  "rmatch [Bnd, Lit w, Bnd] s i = rmatch [Bnd, Alt [w], Bnd] s i"
  by simp

lemma keyword_hit:
  "(rmatch [Bnd, Alt ws, Bnd] s i = None) = (\<not> keyword_at ws s i)"
  unfolding rmatch_keyword_Alt keyword_at_def
  by (auto simp: first_some_None_iff list_ex_iff)

lemma keyword_span:
  assumes sep: "separated ws" and m: "rmatch [Bnd, Alt ws, Bnd] s i = Some e"
  shows "i < e \<and> e \<le> length s \<and> (\<forall>k. i < k \<and> k < e \<longrightarrow> \<not> keyword_at ws s k)"
proof -
  from m have "first_some (\<lambda>w. if lit_at w s i \<and> at_boundary s (i + length w)
                            then Some (i + length w) else None) ws = Some e"
    unfolding rmatch_keyword_Alt by (simp split: if_splits)
  from first_some_SomeD [OF this] obtain w where
    w: "w \<in> set ws" "lit_at w s i" "e = i + length w"
    by (auto split: if_splits)
  from sep w(1) have wne: "w \<noteq> []" by (auto simp: separated_def list_all_iff)
  with lit_at_length [OF w(2)] have "i + length w \<le> length s" by simp
  moreover have "\<not> keyword_at ws s k" if "i < k" "k < e" for k
    using no_overlap [OF sep w(1) w(2) that(1)] that(2) w(3) by simp
  ultimately show ?thesis using wne w(3) by simp
qed

lemma count_keywords:
  assumes sep: "separated ws"
    and alts: "\<And>i. rmatch_alts re s i = rmatch [Bnd, Alt ws, Bnd] s i"
  shows "count_matches re s = occurrences ws s"
proof -
  have "length (findall_from re s 0) = length (filter (keyword_at ws s) [0 ..< Suc (length s)])"
  proof (rule count_by_positions)
    show "(rmatch_alts re s i = None) = (\<not> keyword_at ws s i)" for i
      unfolding alts by (rule keyword_hit)
    show "i < e \<and> e \<le> length s \<and> (\<forall>k. i < k \<and> k < e \<longrightarrow> \<not> keyword_at ws s k)"
      if "rmatch_alts re s i = Some e" for i e
      using keyword_span [OF sep] that unfolding alts by blast
  qed simp
  then show ?thesis by (simp add: count_matches_def occurrences_def findall_def)
qed

lemma count_keywords_Alt:
  "separated ws \<Longrightarrow> count_matches [[Bnd, Alt ws, Bnd]] s = occurrences ws s"
  by (rule count_keywords) (simp_all add: rmatch_alts_def split: option.splits)

lemma count_keywords_Lit:
  "separated [w] \<Longrightarrow> count_matches [[Bnd, Lit w, Bnd]] s = occurrences [w] s"
  by (rule count_keywords) (simp_all add: rmatch_alts_def split: option.splits)

subsection \<open>The score as a weighted sum\<close>

lemma lowercase_is_word:
  "list_all is_word ''abcdefghijklmnopqrstuvwxyz_''"
  by code_simp

lemma separated_words:
  assumes "list_all (\<lambda>w. w \<noteq> [] \<and> set w \<subseteq> set ''abcdefghijklmnopqrstuvwxyz_'') ws"
  shows "separated ws"
proof -
  have word: "is_word (w ! d)" if "w \<in> set ws" "d < length w" for w d
  proof -
    from assms that(1) have "set w \<subseteq> set ''abcdefghijklmnopqrstuvwxyz_''"
      by (simp add: list_all_iff)
    with that(2) have "w ! d \<in> set ''abcdefghijklmnopqrstuvwxyz_''"
      using nth_mem by blast
    with lowercase_is_word show ?thesis
      unfolding list_all_iff by blast
  qed
  have ne: "w \<noteq> []" if "w \<in> set ws" for w
    using assms that by (simp add: list_all_iff)
  show ?thesis
    unfolding separated_def list_all_iff using word ne by auto
qed

lemma separated_keywords:
  "separated [''join'']" "separated [''where'']" "separated [''having'']"
  "separated [''union'']" "separated [''intersect'']" "separated [''except'']"
  "separated [''distinct'']" "separated aggregates" "separated advanced"
  "separated [''and'', ''or'']"
  by (rule separated_words, simp add: aggregates_def advanced_def)+

lemma separated_phrases:
  "separated [''group by'']" "separated [''order by'']"
  by code_simp+

lemma complexity_score_weighted:
  "complexity_score query = weighted_score query"
  unfolding complexity_score_def weighted_score_def Let_def
    rx_join_def rx_where_def rx_group_by_def rx_order_by_def rx_having_def rx_union_def
    rx_intersect_def rx_except_def rx_distinct_def rx_aggregate_def rx_advanced_def
    rx_and_or_def
  by (simp add: count_keywords_Lit count_keywords_Alt separated_keywords separated_phrases
        aggregates_def [symmetric] advanced_def [symmetric])


subsection \<open>Lines\<close>

lemma takeWhile_drop_length:
  "j \<le> length (takeWhile P xs) \<Longrightarrow>
     length (takeWhile P (drop j xs)) = length (takeWhile P xs) - j"
proof (induction xs arbitrary: j)
  case Nil
  then show ?case by simp
next
  case (Cons x xs)
  then show ?case by (cases j) (auto split: if_splits)
qed

lemma dot_run_within:
  assumes "i \<le> k" "k \<le> i + dot_run s i"
  shows "k + dot_run s k = i + dot_run s i"
proof -
  have "drop k s = drop (k - i) (drop i s)" using assms(1) by simp
  then have "dot_run s k = length (takeWhile (\<lambda>c. c \<noteq> newline) (drop (k - i) (drop i s)))"
    by (simp add: dot_run_def)
  also have "\<dots> = dot_run s i - (k - i)"
    unfolding dot_run_def using assms by (intro takeWhile_drop_length) (simp add: dot_run_def)
  finally show ?thesis using assms by simp
qed

lemma dot_run_le:
  "i \<le> length s \<Longrightarrow> i + dot_run s i \<le> length s"
proof -
  assume "i \<le> length s"
  moreover have "dot_run s i \<le> length (drop i s)"
    unfolding dot_run_def by (rule length_takeWhile_le)
  ultimately show ?thesis by simp
qed

lemma take_all_takeWhile:
  assumes "take n xs = w" "length w = n" "\<forall>x \<in> set w. P x"
  shows "n \<le> length (takeWhile P xs)"
proof -
  have "xs = w @ drop n xs" using assms(1) by (metis append_take_drop_id)
  then have "takeWhile P xs = w @ takeWhile P (drop n xs)"
    using assms(3) by (metis takeWhile_append2)
  then show ?thesis using assms(2) by simp
qed

lemma lit_at_dot_run:
  assumes "lit_at w s i" "newline \<notin> set w"
  shows "length w \<le> dot_run s i"
  unfolding dot_run_def
  using assms by (intro take_all_takeWhile [of _ _ w]) (auto simp: lit_at_def)

subsection \<open>Where a match of a flat pattern can go\<close>

lemma flat_step:
  assumes "flat_atom a" "rmatch (a # p) s i = Some e"
  shows "\<exists>k. i \<le> k \<and> k \<le> i + dot_run s i \<and> rmatch p s k = Some e"
proof (cases a)
  case (Lit w)
  with assms have l: "lit_at w s i" and m: "rmatch p s (i + length w) = Some e"
    and nl: "newline \<notin> set w"
    by (auto split: if_splits)
  from lit_at_dot_run [OF l nl] m show ?thesis
    by (intro exI [of _ "i + length w"]) simp
next
  case Bnd
  with assms show ?thesis by (intro exI [of _ i]) (auto split: if_splits)
next
  case DotStar
  with assms have "first_some (\<lambda>k. rmatch p s k) (rev [i ..< Suc (i + dot_run s i)]) = Some e"
    by simp
  from first_some_rev_upt [OF this] show ?thesis by auto
qed (use assms in simp_all)

lemma flat_prefix:
  "list_all flat_atom pre \<Longrightarrow> rmatch (pre @ rest) s i = Some e \<Longrightarrow>
     \<exists>q. i \<le> q \<and> q \<le> i + dot_run s i \<and> rmatch rest s q = Some e"
proof (induction pre arbitrary: i)
  case Nil
  then show ?case by (intro exI [of _ i]) simp
next
  case (Cons a pre)
  from Cons.prems have fa: "flat_atom a" and fp: "list_all flat_atom pre" by simp_all
  from Cons.prems(2) have "rmatch (a # (pre @ rest)) s i = Some e" by simp
  from flat_step [OF fa this] obtain k where
    k: "i \<le> k" "k \<le> i + dot_run s i" "rmatch (pre @ rest) s k = Some e" by blast
  from Cons.IH [OF fp k(3)] obtain q where
    q: "k \<le> q" "q \<le> k + dot_run s k" "rmatch rest s q = Some e" by blast
  have "k + dot_run s k = i + dot_run s i" using k by (intro dot_run_within)
  with q k show ?case by (intro exI [of _ q]) simp
qed

lemma flat_end:
  "list_all flat_atom p \<Longrightarrow> rmatch p s i = Some e \<Longrightarrow> i \<le> e \<and> e \<le> i + dot_run s i"
  using flat_prefix [of p "[]" s i e] by auto

lemma greedy_tail:
  assumes "rmatch (DotStar # r) s q = Some e"
  shows "\<exists>k. q \<le> k \<and> k \<le> q + dot_run s q \<and> rmatch r s k = Some e
           \<and> (\<forall>k'. k < k' \<and> k' \<le> q + dot_run s q \<longrightarrow> rmatch r s k' = None)"
proof -
  from assms have "first_some (\<lambda>k. rmatch r s k) (rev [q ..< Suc (q + dot_run s q)]) = Some e"
    by simp
  from first_some_rev_upt [OF this] show ?thesis
    by (auto simp: less_Suc_eq_le)
qed

subsection \<open>Appending text\<close>

lemma at_boundary_append_inner:
  "i < length base \<Longrightarrow> at_boundary (base @ ext) i = at_boundary base i"
  by (auto simp: at_boundary_def nth_append)

lemma at_boundary_append:
  assumes "i \<le> length base" "starts_apart ext"
  shows "at_boundary (base @ ext) i = at_boundary base i"
proof (cases "i < length base")
  case True
  then show ?thesis by (rule at_boundary_append_inner)
next
  case False
  with assms(1) have i: "i = length base" by simp
  show ?thesis
  proof (cases ext)
    case Nil
    then show ?thesis by simp
  next
    case (Cons c cs)
    with assms(2) have "\<not> is_word c" by (simp add: starts_apart_def)
    then show ?thesis using i Cons by (auto simp: at_boundary_def nth_append)
  qed
qed

lemma at_boundary_seam:
  assumes "i \<le> length base" "ends_apart base \<or> starts_apart ext" "at_boundary base i"
  shows "at_boundary (base @ ext) i"
proof (cases "i < length base")
  case True
  with assms(3) show ?thesis by (simp add: at_boundary_append_inner)
next
  case False
  with assms(1) have i: "i = length base" by simp
  with assms(3) have "base \<noteq> []" "is_word (base ! (length base - 1))"
    by (auto simp: at_boundary_def)
  then have "\<not> ends_apart base"
    by (simp add: ends_apart_def last_conv_nth)
  with assms(2) have "starts_apart ext" by simp
  from at_boundary_append [OF assms(1) this] assms(3) show ?thesis by simp
qed

lemma lit_at_append:
  assumes "lit_at w base i"
  shows "lit_at w (base @ ext) i"
proof (cases "w = []")
  case True
  then show ?thesis by (simp add: lit_at_def)
next
  case False
  with lit_at_length [OF assms] have "i + length w \<le> length base" by simp
  then show ?thesis using assms by (simp add: lit_at_def)
qed

lemma dot_run_append_le:
  "i \<le> length base \<Longrightarrow> dot_run base i \<le> dot_run (base @ ext) i"
proof -
  assume "i \<le> length base"
  then have "drop i (base @ ext) = drop i base @ ext" by simp
  moreover have "length (takeWhile P xs) \<le> length (takeWhile P (xs @ ys))" for P and xs ys :: "'a list"
    by (induction xs) simp_all
  ultimately show ?thesis by (simp add: dot_run_def)
qed

lemma dot_run_stops:
  assumes "i + dot_run base i < length base"
  shows "base ! (i + dot_run base i) = newline"
proof -
  let ?t = "takeWhile (\<lambda>c. c \<noteq> newline) (drop i base)"
  have "length ?t < length (drop i base)" using assms by (simp add: dot_run_def)
  then have "\<not> (drop i base ! length ?t \<noteq> newline)"
    by (rule nth_length_takeWhile)
  then show ?thesis using assms by (simp add: dot_run_def)
qed

lemma dot_run_append_same:
  assumes "i + dot_run base i < length base"
  shows "dot_run (base @ ext) i = dot_run base i"
proof -
  have i: "i \<le> length base" using assms by simp
  let ?t = "takeWhile (\<lambda>c. c \<noteq> newline) (drop i base)"
  have lt: "length ?t < length (drop i base)" using assms by (simp add: dot_run_def)
  have "\<exists>x \<in> set (drop i base). \<not> x \<noteq> newline"
  proof (rule ccontr)
    assume "\<not> ?thesis"
    then have "?t = drop i base" by (intro takeWhile_eq_all_conv [THEN iffD2]) auto
    with lt show False by simp
  qed
  then obtain x where "x \<in> set (drop i base)" "\<not> x \<noteq> newline" by blast
  then have "takeWhile (\<lambda>c. c \<noteq> newline) (drop i base @ ext) = ?t"
    by (rule takeWhile_append1)
  then show ?thesis using i by (simp add: dot_run_def)
qed

lemma lit_at_append_closed:
  assumes "i + dot_run base i < length base" "newline \<notin> set w"
  shows "lit_at w (base @ ext) i = lit_at w base i"
proof
  assume "lit_at w base i"
  then show "lit_at w (base @ ext) i" by (rule lit_at_append)
next
  assume l: "lit_at w (base @ ext) i"
  have "length w \<le> dot_run (base @ ext) i" using l assms(2) by (rule lit_at_dot_run)
  then have "length w \<le> dot_run base i" using dot_run_append_same [OF assms(1)] by simp
  then have "i + length w \<le> length base" using assms(1) by simp
  then show "lit_at w base i" using l by (simp add: lit_at_def)
qed

lemma flat_closed_line:
  "list_all flat_atom p \<Longrightarrow> i + dot_run base i < length base \<Longrightarrow>
     rmatch p (base @ ext) i = rmatch p base i"
proof (induction p arbitrary: i)
  case Nil
  then show ?case by simp
next
  case (Cons a p)
  from Cons.prems have fa: "flat_atom a" and fp: "list_all flat_atom p" by simp_all
  note closed = Cons.prems(2)
  have same: "dot_run (base @ ext) i = dot_run base i"
    using closed by (rule dot_run_append_same)
  have ih: "rmatch p (base @ ext) k = rmatch p base k"
    if "i \<le> k" "k \<le> i + dot_run base i" for k
  proof -
    have "k + dot_run base k = i + dot_run base i" using that by (rule dot_run_within)
    with closed show ?thesis by (intro Cons.IH [OF fp]) simp
  qed
  show ?case
  proof (cases a)
    case (Lit w)
    with fa have nl: "newline \<notin> set w" by simp
    have l: "lit_at w (base @ ext) i = lit_at w base i"
      using closed nl by (rule lit_at_append_closed)
    show ?thesis
    proof (cases "lit_at w base i")
      case True
      then have "length w \<le> dot_run base i" using nl by (rule lit_at_dot_run)
      then have "rmatch p (base @ ext) (i + length w) = rmatch p base (i + length w)"
        by (intro ih) simp_all
      then show ?thesis using Lit l True by simp
    next
      case False
      then show ?thesis using Lit l by simp
    qed
  next
    case Bnd
    have "i < length base" using closed by simp
    then have "at_boundary (base @ ext) i = at_boundary base i"
      by (rule at_boundary_append_inner)
    moreover have "rmatch p (base @ ext) i = rmatch p base i" by (intro ih) simp_all
    ultimately show ?thesis using Bnd by simp
  next
    case DotStar
    have "first_some (\<lambda>k. rmatch p (base @ ext) k) (rev [i ..< Suc (i + dot_run base i)])
            = first_some (\<lambda>k. rmatch p base k) (rev [i ..< Suc (i + dot_run base i)])"
      by (rule first_some_cong) (auto intro: ih)
    then show ?thesis using DotStar same by simp
  qed (use fa in simp_all)
qed

lemma first_some_hit:
  "x \<in> set xs \<Longrightarrow> f x \<noteq> None \<Longrightarrow> first_some f xs \<noteq> None"
  by (induction xs) (auto split: option.splits)

lemma flat_persists:
  "list_all flat_atom p \<Longrightarrow> ends_apart base \<or> starts_apart ext \<Longrightarrow> i \<le> length base \<Longrightarrow>
     rmatch p base i = Some e \<Longrightarrow> rmatch p (base @ ext) i \<noteq> None"
proof (induction p arbitrary: i)
  case Nil
  then show ?case by simp
next
  case (Cons a p)
  from Cons.prems have fa: "flat_atom a" and fp: "list_all flat_atom p" by simp_all
  note apart = Cons.prems(2) and i = Cons.prems(3) and m = Cons.prems(4)
  show ?case
  proof (cases a)
    case (Lit w)
    with m have l: "lit_at w base i" and m': "rmatch p base (i + length w) = Some e"
      by (auto split: if_splits)
    have "i + length w \<le> length base"
      using lit_at_length [OF l] i by auto
    from Cons.IH [OF fp apart this m'] lit_at_append [OF l] Lit show ?thesis by simp
  next
    case Bnd
    with m have b: "at_boundary base i" and m': "rmatch p base i = Some e"
      by (auto split: if_splits)
    from Cons.IH [OF fp apart i m'] at_boundary_seam [OF i apart b] Bnd show ?thesis by simp
  next
    case DotStar
    with m have "first_some (\<lambda>k. rmatch p base k) (rev [i ..< Suc (i + dot_run base i)]) = Some e"
      by simp
    from first_some_rev_upt [OF this] obtain k where
      k: "i \<le> k" "k < Suc (i + dot_run base i)" "rmatch p base k = Some e" by blast
    have "k \<le> length base" using k(2) dot_run_le [OF i] by simp
    from Cons.IH [OF fp apart this k(3)] have ok: "rmatch p (base @ ext) k \<noteq> None" .
    have "k < Suc (i + dot_run (base @ ext) i)"
      using k(2) dot_run_append_le [OF i, of ext] by simp
    with k(1) have "k \<in> set (rev [i ..< Suc (i + dot_run (base @ ext) i)])"
      by (simp del: upt_Suc)
    then have "first_some (\<lambda>k. rmatch p (base @ ext) k)
                    (rev [i ..< Suc (i + dot_run (base @ ext) i)]) \<noteq> None"
      using ok by (rule first_some_hit)
    then show ?thesis using DotStar by simp
  qed (use fa in simp_all)
qed

subsection \<open>Scanning for matches\<close>

lemma findall_none:
  "(\<And>j. i \<le> j \<Longrightarrow> j \<le> length s \<Longrightarrow> rmatch_alts re s j = None)
     \<Longrightarrow> findall_from re s i = []"
proof (induction "Suc (length s) - i" arbitrary: i rule: less_induct)
  case less
  show ?case
  proof (cases "i \<le> length s")
    case False
    then show ?thesis by (simp add: findall_from_end)
  next
    case True
    have "rmatch_alts re s i = None" using less.prems [of i] True by simp
    with True have "findall_from re s i = findall_from re s (Suc i)"
      by (rule findall_from_None)
    also have "\<dots> = []"
      using True less.prems by (intro less.hyps) simp_all
    finally show ?thesis .
  qed
qed

lemma findall_some:
  "i \<le> j \<Longrightarrow> j \<le> length s \<Longrightarrow> rmatch_alts re s j \<noteq> None
     \<Longrightarrow> findall_from re s i \<noteq> []"
proof (induction "j - i" arbitrary: i rule: less_induct)
  case less
  have i: "i \<le> length s" using less.prems by simp
  show ?case
  proof (cases "rmatch_alts re s i")
    case None
    with less.prems have "i \<noteq> j" by auto
    with less.prems have "findall_from re s (Suc i) \<noteq> []"
      by (intro less.hyps) simp_all
    then show ?thesis using findall_from_None [OF i None] by simp
  next
    case (Some e)
    then show ?thesis using i by (subst findall_from.simps) simp
  qed
qed

lemma single_alternative:
  "rmatch_alts [p] s i = rmatch p s i"
  by (simp add: rmatch_alts_def split: option.splits)

subsection \<open>Patterns that end in a greedy tail\<close>

lemma greedy_progress:
  assumes flat: "list_all flat_atom pre"
    and prog: "\<And>k e. rmatch r s k = Some e \<Longrightarrow> k < e"
    and m: "rmatch (pre @ DotStar # r) s i = Some e"
  shows "i < e"
proof -
  from flat_prefix [OF flat m] obtain q where
    q: "i \<le> q" "rmatch (DotStar # r) s q = Some e" by blast
  from greedy_tail [OF q(2)] obtain k where "q \<le> k" "rmatch r s k = Some e" by blast
  with prog [of k e] q(1) show ?thesis by simp
qed

lemma nothing_after:
  assumes flat: "list_all flat_atom pre"
    and prog: "\<And>k e. rmatch r s k = Some e \<Longrightarrow> k < e"
    and m: "rmatch (pre @ DotStar # r) s i = Some e"
    and j: "e \<le> j" "j \<le> i + dot_run s i"
  shows "rmatch (pre @ DotStar # r) s j = None"
proof (rule ccontr)
  assume "rmatch (pre @ DotStar # r) s j \<noteq> None"
  then obtain e2 where m2: "rmatch (pre @ DotStar # r) s j = Some e2" by blast
  from flat_prefix [OF flat m] obtain q where
    q: "i \<le> q" "q \<le> i + dot_run s i" "rmatch (DotStar # r) s q = Some e" by blast
  have eq: "q + dot_run s q = i + dot_run s i" using q(1,2) by (rule dot_run_within)
  from greedy_tail [OF q(3)] obtain k where
    k: "q \<le> k" "rmatch r s k = Some e"
    and last: "\<And>k'. k < k' \<Longrightarrow> k' \<le> q + dot_run s q \<Longrightarrow> rmatch r s k' = None"
    by blast
  have ke: "k < e" using prog [OF k(2)] .
  have ij: "i \<le> j" using q(1) k(1) ke j(1) by simp
  have ej: "j + dot_run s j = i + dot_run s i" using ij j(2) by (rule dot_run_within)
  from flat_prefix [OF flat m2] obtain q2 where
    q2: "j \<le> q2" "q2 \<le> j + dot_run s j" "rmatch (DotStar # r) s q2 = Some e2" by blast
  have eq2: "q2 + dot_run s q2 = j + dot_run s j" using q2(1,2) by (rule dot_run_within)
  from greedy_tail [OF q2(3)] obtain k2 where
    k2: "q2 \<le> k2" "k2 \<le> q2 + dot_run s q2" "rmatch r s k2 = Some e2" by blast
  have "k < k2" using ke j(1) q2(1) k2(1) by simp
  moreover have "k2 \<le> q + dot_run s q" using k2(2) eq2 ej eq by simp
  ultimately have "rmatch r s k2 = None" by (rule last)
  with k2(3) show False by simp
qed

lemma last_line_once:
  assumes flat: "list_all flat_atom pre"
    and prog: "\<And>k e. rmatch r s k = Some e \<Longrightarrow> k < e"
  shows "i \<le> length s \<Longrightarrow> i + dot_run s i = length s
           \<Longrightarrow> length (findall_from [pre @ DotStar # r] s i) \<le> 1"
proof (induction "length s - i" arbitrary: i rule: less_induct)
  case less
  let ?p = "pre @ DotStar # r"
  show ?case
  proof (cases "rmatch ?p s i")
    case None
    then have step: "findall_from [?p] s i = findall_from [?p] s (Suc i)"
      using less.prems(1) by (intro findall_from_None) (simp_all add: single_alternative)
    show ?thesis
    proof (cases "i = length s")
      case True
      then show ?thesis using step by (simp add: findall_from_end)
    next
      case False
      with less.prems have lt: "i < length s" by simp
      have "Suc i + dot_run s (Suc i) = i + dot_run s i"
        using lt less.prems(2) by (intro dot_run_within) simp_all
      then have "length (findall_from [?p] s (Suc i)) \<le> 1"
        using lt less.prems(2) by (intro less.hyps) simp_all
      then show ?thesis using step by simp
    qed
  next
    case (Some e)
    have ie: "i < e" using flat prog Some by (rule greedy_progress)
    have step: "findall_from [?p] s i = substr s i e # findall_from [?p] s e"
      using less.prems(1) Some ie by (intro findall_from_Some) (simp_all add: single_alternative)
    have "findall_from [?p] s e = []"
    proof (rule findall_none)
      fix j assume "e \<le> j" "j \<le> length s"
      then show "rmatch_alts [?p] s j = None"
        unfolding single_alternative
        using less.prems(2) by (intro nothing_after [OF flat prog Some]) simp_all
    qed
    then show ?thesis using step by simp
  qed
qed

lemma greedy_count_append:
  assumes flat: "list_all flat_atom (pre @ DotStar # r)"
    and prog: "\<And>s k e. rmatch r s k = Some e \<Longrightarrow> k < e"
    and apart: "ends_apart base \<or> starts_apart ext"
  shows "i \<le> length base \<Longrightarrow>
           length (findall_from [pre @ DotStar # r] base i)
             \<le> length (findall_from [pre @ DotStar # r] (base @ ext) i)"
proof (induction "length base - i" arbitrary: i rule: less_induct)
  case less
  let ?p = "pre @ DotStar # r"
  from flat have fpre: "list_all flat_atom pre" by simp
  have i': "i \<le> length (base @ ext)" using less.prems by simp
  show ?case
  proof (cases "i + dot_run base i < length base")
    case True
    have same: "rmatch ?p (base @ ext) i = rmatch ?p base i"
      using flat True by (rule flat_closed_line)
    show ?thesis
    proof (cases "rmatch ?p base i")
      case None
      have "findall_from [?p] base i = findall_from [?p] base (Suc i)"
        using less.prems None by (intro findall_from_None) (simp_all add: single_alternative)
      moreover have "findall_from [?p] (base @ ext) i = findall_from [?p] (base @ ext) (Suc i)"
        using i' None same by (intro findall_from_None) (simp_all add: single_alternative)
      moreover have "length (findall_from [?p] base (Suc i))
                       \<le> length (findall_from [?p] (base @ ext) (Suc i))"
        using True by (intro less.hyps) simp_all
      ultimately show ?thesis by simp
    next
      case (Some e)
      have ie: "i < e" using fpre prog Some by (rule greedy_progress)
      have "e \<le> i + dot_run base i" using flat_end [OF flat Some] by simp
      with True have e: "e < length base" by simp
      have "findall_from [?p] base i = substr base i e # findall_from [?p] base e"
        using less.prems Some ie by (intro findall_from_Some) (simp_all add: single_alternative)
      moreover have "findall_from [?p] (base @ ext) i
                       = substr (base @ ext) i e # findall_from [?p] (base @ ext) e"
        using i' Some same ie by (intro findall_from_Some) (simp_all add: single_alternative)
      moreover have "length (findall_from [?p] base e) \<le> length (findall_from [?p] (base @ ext) e)"
        using e ie less.prems by (intro less.hyps) simp_all
      ultimately show ?thesis by simp
    qed
  next
    case False
    with dot_run_le [OF less.prems] have last: "i + dot_run base i = length base" by simp
    have once: "length (findall_from [?p] base i) \<le> 1"
      using fpre prog less.prems last by (rule last_line_once)
    show ?thesis
    proof (cases "findall_from [?p] base i = []")
      case True
      then show ?thesis by simp
    next
      case False
      then have "\<not> (\<forall>j. i \<le> j \<and> j \<le> length base \<longrightarrow> rmatch_alts [?p] base j = None)"
        using findall_none [of i base "[?p]"] by blast
      then obtain j e where j: "i \<le> j" "j \<le> length base" "rmatch ?p base j = Some e"
        unfolding single_alternative by auto
      have "rmatch ?p (base @ ext) j \<noteq> None"
        using flat apart j(2,3) by (rule flat_persists)
      then have "findall_from [?p] (base @ ext) i \<noteq> []"
        using j(1,2) by (intro findall_some [of i j]) (simp_all add: single_alternative)
      then have "1 \<le> length (findall_from [?p] (base @ ext) i)"
        by (cases "findall_from [?p] (base @ ext) i") simp_all
      with once show ?thesis by simp
    qed
  qed
qed

lemma subquery_count_append:
  assumes "ends_apart base \<or> starts_apart ext"
  shows "count_matches rx_subquery base \<le> count_matches rx_subquery (base @ ext)"
proof -
  define pre where "pre = [Bnd, Lit ''select'', Bnd, DotStar, Bnd, Lit ''from'', Bnd, DotStar,
       Bnd, Lit ''where'', Bnd, DotStar, Bnd, Lit ''select'', Bnd]"
  define r where "r = [Bnd, Lit ''from'', Bnd]"
  have rx: "rx_subquery = [pre @ DotStar # r]"
    by (simp add: rx_subquery_def pre_def r_def)
  have flat: "list_all flat_atom (pre @ DotStar # r)"
    by (simp add: pre_def r_def newline_def)
  have prog: "k < e" if "rmatch r s k = Some e" for s k e
    using that by (auto simp: r_def split: if_splits)
  have "length (findall_from [pre @ DotStar # r] base 0)
          \<le> length (findall_from [pre @ DotStar # r] (base @ ext) 0)"
    by (rule greedy_count_append [OF flat prog assms]) simp_all
  then show ?thesis by (simp add: count_matches_def findall_def rx)
qed

subsection \<open>The other parts of the score under appending\<close>

lemma filter_length_mono:
  "(\<And>x. x \<in> set xs \<Longrightarrow> P x \<Longrightarrow> Q x) \<Longrightarrow> length (filter P xs) \<le> length (filter Q xs)"
  by (induction xs) auto

lemma keyword_at_append:
  assumes "ends_apart base \<or> starts_apart ext" "i \<le> length base" "keyword_at ws base i"
  shows "keyword_at ws (base @ ext) i"
proof -
  from assms(3) obtain w where w: "w \<in> set ws" "lit_at w base i"
    "at_boundary base (i + length w)" and b: "at_boundary base i"
    by (auto simp: keyword_at_def list_ex_iff)
  have le: "i + length w \<le> length base"
    using lit_at_length [OF w(2)] assms(2) by auto
  have "at_boundary (base @ ext) (i + length w)"
    using le assms(1) w(3) by (rule at_boundary_seam)
  moreover have "at_boundary (base @ ext) i"
    using assms(2) assms(1) b by (rule at_boundary_seam)
  ultimately show ?thesis
    using w(1) lit_at_append [OF w(2)] by (auto simp: keyword_at_def list_ex_iff)
qed

lemma occurrences_append:
  assumes "ends_apart base \<or> starts_apart ext"
  shows "occurrences ws base \<le> occurrences ws (base @ ext)"
proof -
  let ?n = "Suc (length base)"
  have "length (filter (keyword_at ws base) [0 ..< ?n])
          \<le> length (filter (keyword_at ws (base @ ext)) [0 ..< ?n])"
    by (rule filter_length_mono) (auto intro: keyword_at_append [OF assms])
  also have "\<dots> \<le> length (filter (keyword_at ws (base @ ext)) ([0 ..< ?n] @ [?n ..< ?n + length ext]))"
    by simp
  also have "[0 ..< ?n] @ [?n ..< ?n + length ext] = [0 ..< Suc (length (base @ ext))]"
    using upt_add_eq_append [of 0 ?n "length ext"] by simp
  finally show ?thesis by (simp add: occurrences_def)
qed

lemma split_ws_empty:
  "dropWhile is_space s = [] \<Longrightarrow> split_ws s = []"
  by (subst split_ws.simps) simp

lemma split_ws_word:
  "dropWhile is_space s = r \<Longrightarrow> r \<noteq> [] \<Longrightarrow>
     split_ws s = takeWhile (\<lambda>c. \<not> is_space c) r # split_ws (dropWhile (\<lambda>c. \<not> is_space c) r)"
  by (subst split_ws.simps) (simp add: Let_def)

lemma split_ws_nonempty:
  "dropWhile is_space s \<noteq> [] \<Longrightarrow> split_ws s \<noteq> []"
  using split_ws_word [of s "dropWhile is_space s"] by simp

lemma split_ws_append:
  "length (split_ws a) \<le> length (split_ws (a @ b))"
proof (induction a rule: length_induct)
  case (1 a)
  define r where "r = dropWhile is_space a"
  show ?case
  proof (cases "r = []")
    case True
    then show ?thesis by (simp add: split_ws_empty r_def)
  next
    case False
    define rest where "rest = dropWhile (\<lambda>c. \<not> is_space c) r"
    have sa: "split_ws a = takeWhile (\<lambda>c. \<not> is_space c) r # split_ws rest"
      using False by (simp add: split_ws_word [of a r] r_def rest_def)
    from False obtain x where x: "x \<in> set a" "\<not> is_space x"
      unfolding r_def by (auto simp: dropWhile_eq_Nil_conv)
    then have rb: "dropWhile is_space (a @ b) = r @ b"
      unfolding r_def by (simp add: dropWhile_append1)
    then have ne: "dropWhile is_space (a @ b) \<noteq> []" using False by simp
    show ?thesis
    proof (cases "rest = []")
      case True
      have "split_ws rest = []" using True by (simp add: split_ws_empty)
      moreover have "1 \<le> length (split_ws (a @ b))"
        using split_ws_nonempty [OF ne] by (cases "split_ws (a @ b)") simp_all
      ultimately show ?thesis using sa by simp
    next
      case nr: False
      then obtain y where y: "y \<in> set r" "\<not> \<not> is_space y"
        unfolding rest_def by (auto simp: dropWhile_eq_Nil_conv)
      then have "dropWhile (\<lambda>c. \<not> is_space c) (r @ b) = rest @ b"
        unfolding rest_def by (simp add: dropWhile_append1)
      then have sab: "split_ws (a @ b) = takeWhile (\<lambda>c. \<not> is_space c) (r @ b) # split_ws (rest @ b)"
        using split_ws_word [OF rb] False by simp
      have "length rest < length r"
      proof -
        have "r \<noteq> []" by fact
        then have "\<not> is_space (hd r)" unfolding r_def by (rule hd_dropWhile)
        then show ?thesis
          using \<open>r \<noteq> []\<close> length_dropWhile_le [of "\<lambda>c. \<not> is_space c" "tl r"]
          unfolding rest_def by (cases r) auto
      qed
      moreover have "length r \<le> length a" unfolding r_def by (rule length_dropWhile_le)
      ultimately have "length rest < length a" by simp
      with 1 have "length (split_ws rest) \<le> length (split_ws (rest @ b))" by blast
      then show ?thesis using sa sab by simp
    qed
  qed
qed

lemma is_word_lower_char:
  "is_word (lower_char c) = is_word c"
  by (auto simp: is_word_def lower_char_def Let_def)

lemma starts_apart_lower:
  "starts_apart ext \<Longrightarrow> starts_apart (lower ext)"
  by (cases ext) (simp_all add: starts_apart_def lower_def is_word_lower_char)

lemma ends_apart_lower:
  "ends_apart base \<Longrightarrow> ends_apart (lower base)"
  by (cases "base = []") (simp_all add: ends_apart_def lower_def last_map is_word_lower_char)

lemma weighted_score_append:
  assumes "ends_apart base \<or> starts_apart ext"
  shows "weighted_score base \<le> weighted_score (base @ ext)"
proof -
  let ?a = "lower base" and ?b = "lower ext"
  have ap: "lower (base @ ext) = ?a @ ?b" by (simp add: lower_def)
  have sa: "ends_apart ?a \<or> starts_apart ?b"
    using assms ends_apart_lower starts_apart_lower by blast
  note occ = occurrences_append [OF sa]
  have words: "int (length (split_ws ?a)) div 50 \<le> int (length (split_ws (?a @ ?b))) div 50"
    using split_ws_append [of ?a ?b] by (intro zdiv_mono1) simp_all
  have sub: "count_matches rx_subquery ?a \<le> count_matches rx_subquery (?a @ ?b)"
    using sa by (rule subquery_count_append)
  show ?thesis
    unfolding weighted_score_def Let_def ap
    using words sub
      occ [of "[''join'']"] occ [of "[''where'']"] occ [of "[''group by'']"]
      occ [of "[''order by'']"] occ [of "[''having'']"] occ [of "[''union'']"]
      occ [of "[''intersect'']"] occ [of "[''except'']"] occ [of "[''distinct'']"]
      occ [of "[''avg'', ''count'', ''min'', ''max'', ''sum'', ''variance'', ''stddev'']"]
      occ [of "[''case'', ''cast'', ''coalesce'', ''decode'', ''rank'', ''dense_rank'',
                       ''row_number'', ''ntile'']"]
      occ [of "[''and'', ''or'']"]
    by linarith
qed

text \<open>
  Claim C7, as stated, fails. The keywords are counted between word boundaries, so text
  appended directly after a keyword can fuse with it: the base query below ends in
  \<^verbatim>\<open>union\<close> and scores 4 (Medium); the appended text contains a \<^verbatim>\<open>where\<close> and scores 1 on
  its own, but it turns \<^verbatim>\<open>union\<close> into \<^verbatim>\<open>union_all\<close>, and the whole scores 3 (Easy).
\<close>

theorem fused_word_lowers_score:
  "complexity_score (''select a from t join u union'' @ ''_all select b where c'') = 3
   \<and> complexity_score ''select a from t join u union'' = 4
   \<and> complexity_score ''_all select b where c'' = 1
   \<and> categorize_query ''select a from t join u union'' = Medium
   \<and> categorize_query (''select a from t join u union'' @ ''_all select b where c'') = Easy"
proof -
  have a: "complexity_score (''select a from t join u union'' @ ''_all select b where c'') = 3"
    by code_simp
  have b: "complexity_score ''select a from t join u union'' = 4"
    by code_simp
  have c: "complexity_score ''_all select b where c'' = 1"
    by code_simp
  show ?thesis
    by (simp only: categorize_query_def Let_def a b c) simp
qed

text \<open>
  Claim C7, amended. Unless the base query ends with a word character and the appended
  text begins with one (so that two words fuse), the score of the extended query is at
  least the score of the base query, and so its tier is not lower in the order Easy,
  Medium, Hard: it is enough that the base query is empty or ends with a character that
  is not a word character, or that the appended text is empty or begins with one.
\<close>

theorem appending_apart_never_lowers:
  assumes "ends_apart base \<or> starts_apart ext"
  shows "complexity_score base \<le> complexity_score (base @ ext)
     \<and> tier_rank (categorize_query base) \<le> tier_rank (categorize_query (base @ ext))"
proof -
  have "complexity_score base \<le> complexity_score (base @ ext)"
    using weighted_score_append [OF assms] by (simp add: complexity_score_weighted)
  then show ?thesis
    by (auto simp: categorize_query_def Let_def)
qed

theorem appending_apart_never_lowers_witness:
  "(ends_apart ''SELECT a FROM t '' \<or> starts_apart ''JOIN u ON a = b'')
   \<and> complexity_score ''SELECT a FROM t ''
       \<le> complexity_score (''SELECT a FROM t '' @ ''JOIN u ON a = b'')
   \<and> tier_rank (categorize_query ''SELECT a FROM t '')
       \<le> tier_rank (categorize_query (''SELECT a FROM t '' @ ''JOIN u ON a = b''))"
proof -
  have "ends_apart ''SELECT a FROM t ''"
    by code_simp
  then have h: "ends_apart ''SELECT a FROM t '' \<or> starts_apart ''JOIN u ON a = b''" ..
  show ?thesis
    using h appending_apart_never_lowers [OF h] by simp
qed

subsection \<open>No pattern of the program matches the empty string\<close>

lemma rmatch_le:
  "rmatch p s i = Some e \<Longrightarrow> i \<le> e"
proof (induction p arbitrary: i)
  case Nil
  then show ?case by simp
next
  case (Cons a p)
  show ?case
  proof (cases a)
    case (Lit w)
    with Cons.prems have "rmatch p s (i + length w) = Some e" by (simp split: if_splits)
    from Cons.IH [OF this] show ?thesis by simp
  next
    case Bnd
    with Cons.prems have "rmatch p s i = Some e" by (simp split: if_splits)
    from Cons.IH [OF this] show ?thesis .
  next
    case DotStar
    with Cons.prems obtain k where "i \<le> k" "rmatch p s k = Some e"
      using first_some_rev_upt [of "\<lambda>k. rmatch p s k" i "Suc (i + dot_run s i)" e] by auto
    with Cons.IH [of k] show ?thesis by simp
  next
    case WordPlus
    with Cons.prems obtain k where "Suc i \<le> k" "rmatch p s k = Some e"
      using first_some_rev_upt [of "\<lambda>k. rmatch p s k" "Suc i" "Suc (i + word_run s i)" e] by auto
    with Cons.IH [of k] show ?thesis by simp
  next
    case Sym
    with Cons.prems have "rmatch p s (Suc i) = Some e" by (simp split: if_splits)
    from Cons.IH [OF this] show ?thesis by simp
  next
    case (Alt ws)
    with Cons.prems have "\<exists>w :: string. rmatch p s (i + length w) = Some e"
      using first_some_SomeD [of "\<lambda>w. if lit_at w s i then rmatch p s (i + length w) else None" ws e]
      by (auto split: if_splits)
    then obtain w :: string where "rmatch p s (i + length w) = Some e" ..
    from Cons.IH [OF this] show ?thesis by simp
  qed
qed

lemma keyword_advances:
  assumes "rmatch (Bnd # Alt ws # p) s i = Some e" "[] \<notin> set ws"
  shows "i < e"
proof -
  from assms(1) obtain w where "w \<in> set ws" "rmatch p s (i + length w) = Some e"
    using first_some_SomeD [of "\<lambda>w. if lit_at w s i then rmatch p s (i + length w) else None" ws e]
    by (auto split: if_splits)
  with rmatch_le [of p s "i + length w" e] assms(2) show ?thesis
    by (cases w) auto
qed

lemma word_advances:
  assumes "rmatch (Bnd # Lit w # p) s i = Some e" "w \<noteq> []"
  shows "i < e"
  using keyword_advances [of "[w]" p s i e] assms by (simp split: if_splits)

lemma program_patterns_advance:
  assumes "re \<in> {rx_token, rx_join, rx_where, rx_group_by, rx_order_by, rx_having, rx_union,
                 rx_intersect, rx_except, rx_distinct, rx_aggregate, rx_subquery, rx_advanced,
                 rx_and_or}"
    and "rmatch_alts re s i = Some e"
  shows "i < e"
proof -
  consider "re = rx_token"
    | w p where "re = [Bnd # Lit w # p]" "w \<noteq> []"
    | ws p where "re = [Bnd # Alt ws # p]" "[] \<notin> set ws"
    using assms(1)
    unfolding rx_join_def rx_where_def rx_group_by_def rx_order_by_def rx_having_def
      rx_union_def rx_intersect_def rx_except_def rx_distinct_def rx_aggregate_def
      rx_subquery_def rx_advanced_def rx_and_or_def aggregates_def advanced_def
    by auto
  then show ?thesis
  proof cases
    case 1
    with assms(2) show ?thesis
      using word_run_pos [of s i] by (auto simp add: rmatch_alts_token split: if_splits)
  next
    case 2
    with assms(2) have "rmatch (Bnd # Lit w # p) s i = Some e"
      by (simp add: single_alternative)
    then show ?thesis using 2(2) by (rule word_advances)
  next
    case 3
    with assms(2) have "rmatch (Bnd # Alt ws # p) s i = Some e"
      by (simp add: single_alternative)
    then show ?thesis using 3(2) by (rule keyword_advances)
  qed
qed

end
